theory Spec2Isabelle
  imports Main
begin

section \<open>JavaScript values, exceptions and actions\<close>

text \<open>
  The fragment of JavaScript values that the library inspects. Numbers are the integers
  and \<open>NaN\<close>; \<open>JRef a\<close> is a reference to the object with identity \<open>a\<close>, and two
  references are the same value exactly when they are the same reference. \<open>JNative f\<close> is a
  function or object that the engine provides, such as \<open>Object.prototype.toString\<close>, by its
  name \<open>f\<close>.
\<close>

datatype jsval =
  JUndefined | JNull | JBool bool | JNum int | JNaN | JStr string | JRef nat | JNative string

text \<open>Strict equality \<open>===\<close>: two values are strictly equal when they are the same value,
  except that \<open>NaN\<close> is not strictly equal to anything, itself included.\<close>

definition strict_equal :: "jsval \<Rightarrow> jsval \<Rightarrow> bool" where
  "strict_equal a b \<longleftrightarrow> a = b \<and> a \<noteq> JNaN"

text \<open>What a \<open>throw\<close> carries: an \<open>Error\<close> or \<open>TypeError\<close> object with its message, or any
  other thrown value.\<close>

datatype exn = Error string | TypeError string | Thrown jsval

section \<open>compose\<close>

text \<open>
  A JavaScript function takes its argument list and returns a value or throws:
  \<open>'a list \<Rightarrow> exn + 'a\<close> (\<open>Inl\<close> is the exception). The universe \<open>'a\<close> of values is a
  parameter, since \<open>compose\<close> is used on plain values and on dispatch functions alike;
  \<open>undef\<close> is the value \<open>undefined\<close> of that universe, which \<open>arg => arg\<close> returns when
  it is called with no argument.

  \<^verbatim>\<open>
  export default function compose(...funcs) {
    if (funcs.length === 0) { return arg => arg }
    if (funcs.length === 1) { return funcs[0] }
    return funcs.reduce((a, b) => (...args) => a(b(...args)))
  }
  \<close>
  \<open>reduce\<close> without an initial value starts from \<open>funcs[0]\<close> and folds the rest from the left.
\<close>

type_synonym 'a jsfun = "'a list \<Rightarrow> exn + 'a"

definition compose_step :: "'a jsfun \<Rightarrow> 'a jsfun \<Rightarrow> 'a jsfun" where
  "compose_step a b = (\<lambda>args. case b args of Inl e \<Rightarrow> Inl e | Inr r \<Rightarrow> a [r])"

definition compose :: "'a \<Rightarrow> 'a jsfun list \<Rightarrow> 'a jsfun" where
  "compose undef funcs =
     (if length funcs = 0 then (\<lambda>args. Inr (case args of [] \<Rightarrow> undef | arg # _ \<Rightarrow> arg))
      else if length funcs = 1 then hd funcs
      else foldl compose_step (hd funcs) (tl funcs))"

text \<open>
  The specification's reading: \<open>fn\<^sub>1(fn\<^sub>2(...fn\<^sub>n(...args)))\<close>. The rightmost function is
  applied to the whole argument list, every other function to the one-element list holding
  the value returned to its right; an exception on the way is the result.
\<close>

fun right_to_left :: "'a jsfun list \<Rightarrow> 'a jsfun" where
  "right_to_left [] = (\<lambda>args. Inl (TypeError ''not a function''))"
| "right_to_left [f] = f"
| "right_to_left (f # fs) = (\<lambda>args. case right_to_left fs args of Inl e \<Rightarrow> Inl e | Inr r \<Rightarrow> f [r])"


section \<open>Actions\<close>

text \<open>
  Whatever is handed to \<open>dispatch\<close> or to a reducer as the action: a plain object with its
  own properties, an object that is not plain (a class instance, an array, a function), or
  a primitive value. \<open>isPlainObject\<close> is lodash's test and tells the first from the others.
\<close>

type_synonym props = "(string \<times> jsval) list"

datatype action = PlainObject props | OtherObject props | Primitive jsval

fun isPlainObject :: "action \<Rightarrow> bool" where
  "isPlainObject (PlainObject ps) = True"
| "isPlainObject (OtherObject ps) = False"
| "isPlainObject (Primitive v) = False"

text \<open>Reading a property: \<open>undefined\<close> when the object has none of that name.\<close>

definition own_prop :: "props \<Rightarrow> string \<Rightarrow> jsval" where
  "own_prop ps k = (case map_of ps k of None \<Rightarrow> JUndefined | Some v \<Rightarrow> v)"

text \<open>\<open>action.type\<close>, for an action that is not \<open>null\<close> or \<open>undefined\<close>.\<close>

fun get_type :: "action \<Rightarrow> jsval" where
  "get_type (PlainObject ps) = own_prop ps ''type''"
| "get_type (OtherObject ps) = own_prop ps ''type''"
| "get_type (Primitive v) = JUndefined"

text \<open>The values that count as true in a condition.\<close>

fun truthy :: "jsval \<Rightarrow> bool" where
  "truthy JUndefined = False"
| "truthy JNull = False"
| "truthy (JBool b) = b"
| "truthy (JNum n) = (n \<noteq> 0)"
| "truthy JNaN = False"
| "truthy (JStr s) = (s \<noteq> [])"
| "truthy (JRef a) = True"
| "truthy (JNative f) = True"

definition ActionTypes_INIT :: string where
  "ActionTypes_INIT = ''@@redux/INIT''"

definition INIT_action :: action where
  "INIT_action = PlainObject [(''type'', JStr ActionTypes_INIT)]"

section \<open>Strings of values\<close>

definition digit :: "nat \<Rightarrow> char" where
  "digit d = ''0123456789'' ! (d mod 10)"

function show_nat :: "nat \<Rightarrow> string" where
  "show_nat n = (if n < 10 then [digit n] else show_nat (n div 10) @ [digit n])"
  by pat_completeness auto
termination
  by (relation "measure (\<lambda>n. n)") auto

definition show_int :: "int \<Rightarrow> string" where
  "show_int i = (if i < 0 then ''-'' @ show_nat (nat (- i)) else show_nat (nat i))"

section \<open>The engine\<close>

text \<open>
  What the library's code gets from the JavaScript engine and from the objects of the
  application, beyond the data properties that the model keeps for each object:

  \<^item> \<open>inherited rt v k\<close> is the outcome of the read \<open>v[k]\<close> when \<open>v\<close> is not \<open>null\<close> or
    \<open>undefined\<close> and has no data property \<open>k\<close> of its own in the model: the property found
    along the prototype chain of an object, or on the wrapper of a primitive (\<open>'abc'.length\<close>),
    \<open>undefined\<close> when there is none, or the exception of a getter;

  \<^item> \<open>printed rt v\<close> is the outcome of \<open>`${v.toString()}`\<close> for a value whose text the
    model does not compute: an object (its own or inherited \<open>toString\<close> is called, and the
    call is a \<open>TypeError\<close> when there is none), or a number outside the safe integers
    (\<open>1e+21\<close>).
\<close>

record runtime =
  inherited :: "jsval \<Rightarrow> string \<Rightarrow> exn + jsval"
  printed :: "jsval \<Rightarrow> exn + string"

definition MAX_SAFE_INTEGER :: int where
  "MAX_SAFE_INTEGER = 9007199254740991"

text \<open>
  \<open>`${v.toString()}`\<close>. The call throws on \<open>null\<close> and \<open>undefined\<close>. A string is its own
  text, a boolean prints as \<open>true\<close> or \<open>false\<close>, and a safe integer (one whose magnitude is
  at most \<open>2\<^sup>5\<^sup>3 - 1\<close>) prints as its decimal digits; the rest is the engine's.
\<close>

fun toString :: "runtime \<Rightarrow> jsval \<Rightarrow> exn + string" where
  "toString rt JUndefined = Inl (TypeError ''Cannot read property 'toString' of undefined'')"
| "toString rt JNull = Inl (TypeError ''Cannot read property 'toString' of null'')"
| "toString rt (JBool b) = Inr (if b then ''true'' else ''false'')"
| "toString rt (JNum n) =
     (if - MAX_SAFE_INTEGER \<le> n \<and> n \<le> MAX_SAFE_INTEGER then Inr (show_int n)
      else printed rt (JNum n))"
| "toString rt JNaN = Inr ''NaN''"
| "toString rt (JStr s) = Inr s"
| "toString rt (JRef a) = printed rt (JRef a)"
| "toString rt (JNative f) = printed rt (JNative f)"

section \<open>combineReducers\<close>

text \<open>
  A reducer handed to \<open>combineReducers\<close> takes the previous state of its key and the action,
  and returns the next state or throws. A value of the \<open>reducers\<close> object is such a
  function or something that is not a function at all.
\<close>

type_synonym reducer = "jsval \<Rightarrow> action \<Rightarrow> exn + jsval"

datatype 'f fnarg = Fn 'f | NotFn jsval

text \<open>
  \<^verbatim>\<open>
  function getUndefinedStateErrorMessage(key, action) {
    const actionType = action && action.type
    const actionName = (actionType && `"${actionType.toString()}"`) || 'an action'
    return (
      `Given action ${actionName}, reducer "${key}" returned undefined. ` + ...
  \<close>
  \<open>action && action.type\<close> is the action itself when the action is falsy, and its \<open>type\<close>
  otherwise (a truthy primitive has no such property). When that value is truthy the name is
  its text in double quotes, a string that is never empty, and an exception of \<open>toString()\<close>
  leaves the function.
\<close>

definition action_and_type :: "action \<Rightarrow> jsval" where
  "action_and_type action =
     (case action of
        Primitive v \<Rightarrow> (if truthy v then JUndefined else v)
      | _ \<Rightarrow> get_type action)"

definition undefined_state_message :: "string \<Rightarrow> string \<Rightarrow> string" where
  "undefined_state_message actionName key =
     ''Given action '' @ actionName @ '', reducer \"'' @ key @ ''\" returned undefined. '' @
     ''To ignore an action, you must explicitly return the previous state. '' @
     ''If you want this reducer to hold no value, you can return null instead of undefined.''"

definition getUndefinedStateErrorMessage :: "runtime \<Rightarrow> string \<Rightarrow> action \<Rightarrow> exn + string" where
  "getUndefinedStateErrorMessage rt key action =
     (let actionType = action_and_type action in
      if truthy actionType
      then (case toString rt actionType of
              Inl e \<Rightarrow> Inl e
            | Inr shown \<Rightarrow> Inr (undefined_state_message (''\"'' @ shown @ ''\"'') key))
      else Inr (undefined_state_message ''an action'' key))"

text \<open>
  \<open>assertReducerShape\<close> visits the keys of \<open>finalReducers\<close> in order (\<open>forEach\<close>) and throws
  at the first reducer that returns \<open>undefined\<close>, which ends the \<open>forEach\<close>; an exception
  of a reducer ends it as well. The model returns what was thrown (\<open>None\<close> when the
  function returns) and the reducer calls it made, in order, each with its key and action.

  \<open>Math.random().toString(36).substring(7)\<close> is an input: \<open>rnd i\<close> is the string drawn for
  the \<open>i\<close>-th key (one draw per key that passes its INIT call, and the loop stops at the first
  key that does not pass both calls, so the \<open>i\<close>-th key gets the \<open>i\<close>-th draw).
  \<open>.split('').join('.')\<close> puts a dot between its characters.
\<close>

fun join_dots :: "string \<Rightarrow> string" where
  "join_dots [] = []"
| "join_dots [c] = [c]"
| "join_dots (c # cs) = c # CHR ''.'' # join_dots cs"

definition probe_action :: "string \<Rightarrow> action" where
  "probe_action r = PlainObject [(''type'', JStr (''@@redux/PROBE_UNKNOWN_ACTION_'' @ join_dots r))]"

definition init_shape_message :: "string \<Rightarrow> string" where
  "init_shape_message key =
     ''Reducer \"'' @ key @ ''\" returned undefined during initialization. '' @
     ''If the state passed to the reducer is undefined, you must '' @
     ''explicitly return the initial state. The initial state may '' @
     ''not be undefined. If you don't want to set a value for this reducer, '' @
     ''you can use null instead of undefined.''"

definition probe_shape_message :: "string \<Rightarrow> string" where
  "probe_shape_message key =
     ''Reducer \"'' @ key @ ''\" returned undefined when probed with a random type. '' @
     ''Don't try to handle '' @ ActionTypes_INIT @ '' or other actions in \"redux/*\" '' @
     ''namespace. They are considered private. Instead, you must return the '' @
     ''current state for any unknown actions, unless it is undefined, '' @
     ''in which case you must return the initial state, regardless of the '' @
     ''action type. The initial state may not be undefined, but can be null.''"

type_synonym calls = "(string \<times> action) list"

fun assertReducerShape :: "(nat \<Rightarrow> string) \<Rightarrow> nat \<Rightarrow> (string \<times> reducer) list \<Rightarrow> exn option \<times> calls" where
  "assertReducerShape rnd i [] = (None, [])"
| "assertReducerShape rnd i ((key, reducer) # rest) =
     (case reducer JUndefined INIT_action of
        Inl e \<Rightarrow> (Some e, [(key, INIT_action)])
      | Inr initialState \<Rightarrow>
          if initialState = JUndefined
          then (Some (Error (init_shape_message key)), [(key, INIT_action)])
          else
            (case reducer JUndefined (probe_action (rnd i)) of
               Inl e \<Rightarrow> (Some e, [(key, INIT_action), (key, probe_action (rnd i))])
             | Inr probed \<Rightarrow>
                 if probed = JUndefined
                 then (Some (Error (probe_shape_message key)),
                       [(key, INIT_action), (key, probe_action (rnd i))])
                 else
                   (case assertReducerShape rnd (i + 1) rest of
                      (thrown, cs) \<Rightarrow>
                        (thrown, (key, INIT_action) # (key, probe_action (rnd i)) # cs))))"

text \<open>
  The first loop of \<open>combineReducers\<close> keeps the entries whose value is a function, in the
  order of \<open>Object.keys(reducers)\<close>. The argument is the \<open>reducers\<close> object as the list of
  its own properties in that order.
  \<^verbatim>\<open>
    if (typeof reducers[key] === 'function') { finalReducers[key] = reducers[key] }
  \<close>
  The assignment adds the property to the plain object \<open>finalReducers\<close>, except for the key
  \<open>__proto__\<close>: there it goes to the setter of \<open>Object.prototype\<close>, which replaces the
  prototype of \<open>finalReducers\<close> and adds no property, so that \<open>Object.keys(finalReducers)\<close>
  does not list the key.
\<close>

fun retain :: "(string \<times> reducer fnarg) list \<Rightarrow> (string \<times> reducer) list" where
  "retain [] = []"
| "retain ((key, Fn f) # rest) = (if key = ''__proto__'' then retain rest else (key, f) # retain rest)"
| "retain ((key, NotFn v) # rest) = retain rest"

text \<open>
  What the closure \<open>combination\<close> captures: \<open>finalReducers\<close> (whose keys, in order, are
  \<open>finalReducerKeys\<close>) and \<open>shapeAssertionError\<close>, which is \<open>None\<close> while the variable was
  never assigned. The model is of the production build: the blocks under
  \<open>process.env.NODE_ENV !== 'production'\<close>, which compute and print warnings, are skipped.
\<close>

record combined =
  finalReducers :: "(string \<times> reducer) list"
  shapeAssertionError :: "exn option"

definition finalReducerKeys :: "combined \<Rightarrow> string list" where
  "finalReducerKeys c = map fst (finalReducers c)"

text \<open>
  \<^verbatim>\<open>
  let shapeAssertionError
  try { assertReducerShape(finalReducers) } catch (e) { shapeAssertionError = e }
  return function combination(state = {}, action) { ... }
  \<close>
  The second component is the list of reducer calls made while composing.
\<close>

definition combineReducers :: "(nat \<Rightarrow> string) \<Rightarrow> (string \<times> reducer fnarg) list \<Rightarrow> combined \<times> calls" where
  "combineReducers rnd reducers =
     (let final = retain reducers in
      case assertReducerShape rnd 0 final of
        (thrown, cs) \<Rightarrow> (\<lparr>finalReducers = final, shapeAssertionError = thrown\<rparr>, cs))"

text \<open>
  State objects live in a heap, a list of objects addressed by position, so that the state
  handed in and the \<open>nextState\<close> built by \<open>combination\<close> are told apart by identity:
  \<open>{}\<close> allocates the next free address. An object is the list of its own data properties;
  what it inherits is the engine's (\<open>inherited\<close>).
\<close>

type_synonym heap = "props list"

fun put :: "props \<Rightarrow> string \<Rightarrow> jsval \<Rightarrow> props" where
  "put [] k v = [(k, v)]"
| "put ((k', v') # ps) k v = (if k' = k then (k, v) # ps else (k', v') # put ps k v)"

text \<open>
  \<open>state[key]\<close>: \<open>null\<close> has no properties and the read throws; a reference reads the
  object's own property when it has one of that name, and otherwise what the object
  inherits (\<open>({}).toString\<close> is a function); a primitive reads what its wrapper has.
  (\<open>state\<close> is never \<open>undefined\<close> here, because of the default \<open>state = {}\<close>; the read
  would throw as well.)
\<close>

fun read_key :: "runtime \<Rightarrow> heap \<Rightarrow> jsval \<Rightarrow> string \<Rightarrow> exn + jsval" where
  "read_key rt h JNull key = Inl (TypeError ''Cannot read property of null'')"
| "read_key rt h JUndefined key = Inl (TypeError ''Cannot read property of undefined'')"
| "read_key rt h (JRef a) key =
     (case (if a < length h then map_of (h ! a) key else None) of
        Some v \<Rightarrow> Inr v
      | None \<Rightarrow> inherited rt (JRef a) key)"
| "read_key rt h v key = inherited rt v key"

text \<open>\<open>if (shapeAssertionError) throw shapeAssertionError\<close>: a caught value is thrown again
  when it is truthy; every \<open>Error\<close> object is.\<close>

fun exn_truthy :: "exn \<Rightarrow> bool" where
  "exn_truthy (Error m) = True"
| "exn_truthy (TypeError m) = True"
| "exn_truthy (Thrown v) = truthy v"

text \<open>
  The loop of \<open>combination\<close> over \<open>finalReducerKeys\<close>, from the entry it has reached, with
  \<open>hasChanged\<close> so far; \<open>nextState\<close> is the address of the object being filled.
  \<^verbatim>\<open>
      const previousStateForKey = state[key]
      const nextStateForKey = reducer(previousStateForKey, action)
      if (typeof nextStateForKey === 'undefined') {
        const errorMessage = getUndefinedStateErrorMessage(key, action)
        throw new Error(errorMessage)
      }
      nextState[key] = nextStateForKey
      hasChanged = hasChanged || nextStateForKey !== previousStateForKey
  \<close>
  The assignment writes an own property of \<open>nextState\<close>: \<open>__proto__\<close>, the one name for
  which \<open>Object.prototype\<close> has a setter, is not among the keys of \<open>finalReducers\<close>.
\<close>

fun combination_loop ::
  "runtime \<Rightarrow> jsval \<Rightarrow> action \<Rightarrow> nat \<Rightarrow> (string \<times> reducer) list \<Rightarrow> bool \<Rightarrow> heap \<Rightarrow>
   (exn + bool) \<times> heap" where
  "combination_loop rt state action nextState [] hasChanged h = (Inr hasChanged, h)"
| "combination_loop rt state action nextState ((key, reducer) # rest) hasChanged h =
     (case read_key rt h state key of
        Inl e \<Rightarrow> (Inl e, h)
      | Inr previousStateForKey \<Rightarrow>
          (case reducer previousStateForKey action of
             Inl e \<Rightarrow> (Inl e, h)
           | Inr nextStateForKey \<Rightarrow>
               if nextStateForKey = JUndefined
               then (case getUndefinedStateErrorMessage rt key action of
                       Inl e \<Rightarrow> (Inl e, h)
                     | Inr errorMessage \<Rightarrow> (Inl (Error errorMessage), h))
               else combination_loop rt state action nextState rest
                      (hasChanged \<or> \<not> strict_equal nextStateForKey previousStateForKey)
                      (h[nextState := put (h ! nextState) key nextStateForKey])))"

fun rethrown :: "exn option \<Rightarrow> exn option" where
  "rethrown None = None"
| "rethrown (Some e) = (if exn_truthy e then Some e else None)"

text \<open>The default \<open>state = {}\<close>: an \<open>undefined\<close> argument is replaced by a new empty object.\<close>

definition default_state :: "heap \<Rightarrow> jsval \<Rightarrow> heap \<times> jsval" where
  "default_state h state = (if state = JUndefined then (h @ [[]], JRef (length h)) else (h, state))"

text \<open>
  \<^verbatim>\<open>
  return function combination(state = {}, action) {
    if (shapeAssertionError) { throw shapeAssertionError }
    let hasChanged = false
    const nextState = {}
    for (let i = 0; i < finalReducerKeys.length; i++) { ... }
    return hasChanged ? nextState : state
  }
  \<close>
\<close>

definition combination ::
  "runtime \<Rightarrow> combined \<Rightarrow> heap \<Rightarrow> jsval \<Rightarrow> action \<Rightarrow> (exn + jsval) \<times> heap" where
  "combination rt c h0 state0 action =
     (case default_state h0 state0 of
        (h, state) \<Rightarrow>
          (case rethrown (shapeAssertionError c) of
             Some e \<Rightarrow> (Inl e, h)
           | None \<Rightarrow>
               (let nextState = length h in
                case combination_loop rt state action nextState (finalReducers c) False (h @ [[]]) of
                  (Inl e, h') \<Rightarrow> (Inl e, h')
                | (Inr hasChanged, h') \<Rightarrow>
                    (Inr (if hasChanged then JRef nextState else state), h'))))"


section \<open>Notions for stating the properties of combineReducers\<close>

text \<open>The previous state of a key, \<open>state[key]\<close>, where the read does not throw; and the
  value a reducer call returned, where it returned.\<close>

definition previous :: "runtime \<Rightarrow> heap \<Rightarrow> jsval \<Rightarrow> string \<Rightarrow> jsval" where
  "previous rt h state key = (case read_key rt h state key of Inr v \<Rightarrow> v | Inl e \<Rightarrow> JUndefined)"

definition returned :: "exn + jsval \<Rightarrow> jsval" where
  "returned x = (case x of Inr v \<Rightarrow> v | Inl e \<Rightarrow> JUndefined)"

text \<open>
  A reducer passes validation with the draw \<open>rnd i\<close> when it returns normally, and not
  \<open>undefined\<close>, for the INIT action and for the probe action; \<open>both_calls\<close> are the calls
  validation makes for reducers that pass: INIT, then the probe, key after key.
\<close>

definition passes :: "(nat \<Rightarrow> string) \<Rightarrow> nat \<Rightarrow> reducer \<Rightarrow> bool" where
  "passes rnd i reducer =
     (case reducer JUndefined INIT_action of
        Inl e \<Rightarrow> False
      | Inr v \<Rightarrow> v \<noteq> JUndefined \<and>
          (case reducer JUndefined (probe_action (rnd i)) of
             Inl e \<Rightarrow> False
           | Inr w \<Rightarrow> w \<noteq> JUndefined))"

fun all_pass :: "(nat \<Rightarrow> string) \<Rightarrow> nat \<Rightarrow> (string \<times> reducer) list \<Rightarrow> bool" where
  "all_pass rnd i [] = True"
| "all_pass rnd i ((key, reducer) # rest) = (passes rnd i reducer \<and> all_pass rnd (i + 1) rest)"

fun both_calls :: "(nat \<Rightarrow> string) \<Rightarrow> nat \<Rightarrow> (string \<times> reducer) list \<Rightarrow> calls" where
  "both_calls rnd i [] = []"
| "both_calls rnd i ((key, reducer) # rest) =
     (key, INIT_action) # (key, probe_action (rnd i)) # both_calls rnd (i + 1) rest"

section \<open>Example reducers and actions\<close>

text \<open>
  Inputs for the concrete instances below. \<open>counter\<close> is the reducer of the specification's
  scenarios, \<open>f(state = 0, action) = action.type === 'INC' ? state + 1 : state\<close>, on numbers.
\<close>

definition counter :: reducer where
  "counter state action =
     (let s = (if state = JUndefined then JNum 0 else state) in
      if get_type action = JStr ''INC''
      then (case s of JNum n \<Rightarrow> Inr (JNum (n + 1)) | _ \<Rightarrow> Inr s)
      else Inr s)"

definition always_undefined :: reducer where
  "always_undefined state action = Inr JUndefined"

text \<open>A reducer that returns \<open>undefined\<close> for the actions of type \<open>t\<close>, and otherwise
  the state it was given (\<open>null\<close> at first).\<close>

definition undefined_on :: "jsval \<Rightarrow> reducer" where
  "undefined_on t state action =
     (if get_type action = t then Inr JUndefined
      else if state = JUndefined then Inr JNull else Inr state)"

text \<open>A reducer that returns the state it was given (\<open>null\<close> at first), whatever the
  action.\<close>

definition keep :: reducer where
  "keep state action = Inr (if state = JUndefined then JNull else state)"

text \<open>
  An engine for the examples. Every object of the heap is a plain object: it inherits the
  properties of the standard \<open>Object.prototype\<close>, each of them a value of the engine, and
  prints as \<open>[object Object]\<close> unless the example says otherwise. A string has its
  \<open>length\<close>. The examples read nothing else from the engine.
\<close>

definition Object_prototype :: "string list" where
  "Object_prototype =
     [''constructor'', ''__defineGetter__'', ''__defineSetter__'', ''hasOwnProperty'',
      ''__lookupGetter__'', ''__lookupSetter__'', ''isPrototypeOf'', ''propertyIsEnumerable'',
      ''toString'', ''valueOf'', ''__proto__'', ''toLocaleString'']"

definition plain_runtime :: runtime where
  "plain_runtime =
     \<lparr>inherited = (\<lambda>v k. case v of
          JRef a \<Rightarrow> Inr (if k \<in> set Object_prototype
                          then JNative (''Object.prototype.'' @ k) else JUndefined)
        | JStr s \<Rightarrow> Inr (if k = ''length'' then JNum (int (length s)) else JUndefined)
        | _ \<Rightarrow> Inr JUndefined),
      printed = (\<lambda>v. Inr ''[object Object]'')\<rparr>"

definition example_draw :: "nat \<Rightarrow> string" where
  "example_draw i = ''x7''"

definition INC :: action where
  "INC = PlainObject [(''type'', JStr ''INC'')]"

definition X_action :: action where
  "X_action = PlainObject [(''type'', JStr ''X'')]"

definition zero_action :: action where
  "zero_action = PlainObject [(''type'', JNum 0)]"

text \<open>The number \<open>1e21\<close>, and an action whose type is an object.\<close>

definition big_action :: action where
  "big_action = PlainObject [(''type'', JNum 1000000000000000000000)]"

definition object_action :: action where
  "object_action = PlainObject [(''type'', JRef 0)]"

section \<open>createStore\<close>

text \<open>
  The variables that the closures of one store share. Listener arrays live in a heap of
  arrays addressed by position, so that \<open>currentListeners\<close> and \<open>nextListeners\<close> can be the
  same array (\<open>nextListeners === currentListeners\<close>) or two arrays with the same contents;
  \<open>slice()\<close> allocates. Reducers and listeners are named by numbers, and equality of the
  numbers is identity of the functions. Each call of \<open>subscribe\<close> creates one closure
  \<open>unsubscribe\<close> with its captured \<open>listener\<close> and its variable \<open>isSubscribed\<close>; they are
  kept in \<open>subscriptions\<close>, and the position there stands for the closure.
\<close>

record store =
  currentReducer :: nat
  currentState :: jsval
  currentListeners :: nat
  nextListeners :: nat
  isDispatching :: bool
  arrays :: "nat list list"
  subscriptions :: "(nat \<times> bool) list"

text \<open>
  What the code of a reducer or of a listener does with the store: a sequence of calls of
  the store's operations, and \<open>throw\<close>. An exception of a call ends the sequence, as an
  exception that is not caught does.
\<close>

datatype cmd =
    Dispatch action
  | Subscribe "nat fnarg"
  | Unsubscribe nat
  | ReplaceReducer "nat fnarg"
  | Throw exn

text \<open>
  The functions behind the numbers. A reducer is given the state and the action, runs its
  commands and returns its value. A listener takes no argument; it reads \<open>getState()\<close> when it
  is entered and runs the commands chosen from that.
\<close>

record env =
  reducer_of :: "nat \<Rightarrow> jsval \<Rightarrow> action \<Rightarrow> cmd list \<times> jsval"
  listener_of :: "nat \<Rightarrow> jsval \<Rightarrow> cmd list"

text \<open>
  What is observed of a run: \<open>Transition v\<close> when \<open>currentState\<close> is assigned \<open>v\<close>;
  \<open>Invoke l v es x\<close> when the notification loop calls listener \<open>l\<close>, which reads the state
  \<open>v\<close>, during whose call the events \<open>es\<close> happen, and which returns (\<open>x = None\<close>) or lets
  the exception \<open>e\<close> escape (\<open>x = Some e\<close>); \<open>Subscribed l\<close> when \<open>l\<close> is pushed on
  \<open>nextListeners\<close>; \<open>Unsubscribed l\<close> when an \<open>unsubscribe\<close> closure of \<open>l\<close> splices
  \<open>nextListeners\<close>; \<open>Rejected a\<close> when \<open>dispatch(a)\<close> finds \<open>isDispatching\<close> set.
\<close>

datatype event =
    Transition jsval
  | Invoke nat jsval "event list" "exn option"
  | Subscribed nat
  | Unsubscribed nat
  | Rejected action

definition array_at :: "store \<Rightarrow> nat \<Rightarrow> nat list" where
  "array_at s a = (if a < length (arrays s) then arrays s ! a else [])"

text \<open>
  \<^verbatim>\<open>
  function ensureCanMutateNextListeners() {
    if (nextListeners === currentListeners) { nextListeners = currentListeners.slice() }
  }
  \<close>
\<close>

definition ensureCanMutateNextListeners :: "store \<Rightarrow> store" where
  "ensureCanMutateNextListeners s =
     (if nextListeners s = currentListeners s
      then s\<lparr>nextListeners := length (arrays s),
             arrays := arrays s @ [array_at s (currentListeners s)]\<rparr>
      else s)"

definition getState :: "store \<Rightarrow> jsval" where
  "getState s = currentState s"

text \<open>
  \<open>subscribe\<close> returns the new \<open>unsubscribe\<close> closure (its position in \<open>subscriptions\<close>).
  \<^verbatim>\<open>
  function subscribe(listener) {
    if (typeof listener !== 'function') { throw new Error('Expected listener to be a function.') }
    let isSubscribed = true
    ensureCanMutateNextListeners()
    nextListeners.push(listener)
    return function unsubscribe() { ... }
  }
  \<close>
\<close>

definition subscribe :: "store \<Rightarrow> nat fnarg \<Rightarrow> (exn + nat) \<times> store \<times> event list" where
  "subscribe s listener =
     (case listener of
        NotFn v \<Rightarrow> (Inl (Error ''Expected listener to be a function.''), s, [])
      | Fn l \<Rightarrow>
          (let s1 = ensureCanMutateNextListeners s;
               s2 = s1\<lparr>arrays := (arrays s1)[nextListeners s1 := array_at s1 (nextListeners s1) @ [l]],
                       subscriptions := subscriptions s1 @ [(l, True)]\<rparr>
           in (Inr (length (subscriptions s)), s2, [Subscribed l])))"

text \<open>\<open>xs.indexOf(x)\<close>, and \<open>xs.splice(index, 1)\<close>, where a negative index counts from the end
  (so \<open>-1\<close> removes the last element).\<close>

fun indexOf :: "'a list \<Rightarrow> 'a \<Rightarrow> int" where
  "indexOf [] x = - 1"
| "indexOf (y # ys) x = (if y = x then 0 else (let i = indexOf ys x in if i < 0 then - 1 else i + 1))"

definition splice1 :: "int \<Rightarrow> 'a list \<Rightarrow> 'a list" where
  "splice1 index xs =
     (let len = int (length xs);
          start = (if index < 0 then max (len + index) 0 else min index len)
      in take (nat start) xs @ drop (nat start + 1) xs)"

definition remove_listener :: "nat \<Rightarrow> nat list \<Rightarrow> nat list" where
  "remove_listener l xs = splice1 (indexOf xs l) xs"

text \<open>
  \<^verbatim>\<open>
    return function unsubscribe() {
      if (!isSubscribed) { return }
      isSubscribed = false
      ensureCanMutateNextListeners()
      const index = nextListeners.indexOf(listener)
      nextListeners.splice(index, 1)
    }
  \<close>
  Calling a closure that no \<open>subscribe\<close> has returned yet is calling \<open>undefined\<close>.
\<close>

definition unsubscribe :: "store \<Rightarrow> nat \<Rightarrow> (exn + unit) \<times> store \<times> event list" where
  "unsubscribe s u =
     (if u < length (subscriptions s) then
        (case subscriptions s ! u of
           (listener, isSubscribed) \<Rightarrow>
             if \<not> isSubscribed then (Inr (), s, [])
             else
               (let s1 = s\<lparr>subscriptions := (subscriptions s)[u := (listener, False)]\<rparr>;
                    s2 = ensureCanMutateNextListeners s1;
                    s3 = s2\<lparr>arrays := (arrays s2)[nextListeners s2 :=
                                 remove_listener listener (array_at s2 (nextListeners s2))]\<rparr>
                in (Inr (), s3, [Unsubscribed listener])))
      else (Inl (TypeError ''unsubscribe is not a function''), s, []))"

text \<open>
  \<open>dispatch\<close>, its notification loop and the code of the callbacks call each other; a
  listener that dispatches at every call never returns. The first argument bounds the depth
  of the calls, and \<open>None\<close> is the run that does not end within it. A result is the value or
  the exception, the store afterwards and the events of the run.

  \<^verbatim>\<open>
  function dispatch(action) {
    if (!isPlainObject(action)) { throw new Error('Actions must be plain objects. ' + ...) }
    if (typeof action.type === 'undefined') { throw new Error('Actions may not have ...') }
    if (isDispatching) { throw new Error('Reducers may not dispatch actions.') }
    try {
      isDispatching = true
      currentState = currentReducer(currentState, action)
    } finally {
      isDispatching = false
    }
    const listeners = currentListeners = nextListeners
    for (let i = 0; i < listeners.length; i++) {
      const listener = listeners[i]
      listener()
    }
    return action
  }

  function replaceReducer(nextReducer) {
    if (typeof nextReducer !== 'function') { throw new Error('Expected the nextReducer to be a function.') }
    currentReducer = nextReducer
    dispatch({ type: ActionTypes.INIT })
  }
  \<close>
  \<open>notify fuel env s listeners i\<close> is the loop from index \<open>i\<close>; \<open>listeners\<close> is the address
  of the array, whose length and elements are read from the heap at every round.
\<close>

type_synonym 'a outcome = "((exn + 'a) \<times> store \<times> event list) option"

fun dispatch :: "nat \<Rightarrow> env \<Rightarrow> store \<Rightarrow> action \<Rightarrow> action outcome"
  and notify :: "nat \<Rightarrow> env \<Rightarrow> store \<Rightarrow> nat \<Rightarrow> nat \<Rightarrow> unit outcome"
  and run :: "nat \<Rightarrow> env \<Rightarrow> store \<Rightarrow> cmd list \<Rightarrow> unit outcome" where
  "dispatch 0 env s action = None"
| "dispatch (Suc n) env s action =
     (if \<not> isPlainObject action
      then Some (Inl (Error ''Actions must be plain objects. Use custom middleware for async actions.''), s, [])
      else if get_type action = JUndefined
      then Some (Inl (Error ''Actions may not have an undefined \"type\" property. Have you misspelled a constant?''), s, [])
      else if isDispatching s
      then Some (Inl (Error ''Reducers may not dispatch actions.''), s, [Rejected action])
      else
        (case reducer_of env (currentReducer s) (currentState s) action of
           (body, result) \<Rightarrow>
             (case run n env (s\<lparr>isDispatching := True\<rparr>) body of
                None \<Rightarrow> None
              | Some (Inl e, s1, tr) \<Rightarrow> Some (Inl e, s1\<lparr>isDispatching := False\<rparr>, tr)
              | Some (Inr u, s1, tr) \<Rightarrow>
                  (let s2 = s1\<lparr>currentState := result, isDispatching := False\<rparr>;
                       s3 = s2\<lparr>currentListeners := nextListeners s2\<rparr>
                   in case notify n env s3 (currentListeners s3) 0 of
                        None \<Rightarrow> None
                      | Some (Inl e, s4, tr') \<Rightarrow> Some (Inl e, s4, tr @ Transition result # tr')
                      | Some (Inr u, s4, tr') \<Rightarrow> Some (Inr action, s4, tr @ Transition result # tr')))))"
| "notify 0 env s listeners i =
     (if i < length (array_at s listeners) then None else Some (Inr (), s, []))"
| "notify (Suc n) env s listeners i =
     (if i < length (array_at s listeners)
      then
        (let listener = array_at s listeners ! i; seen = getState s in
         case run n env s (listener_of env listener seen) of
           None \<Rightarrow> None
         | Some (Inl e, s1, tr) \<Rightarrow> Some (Inl e, s1, [Invoke listener seen tr (Some e)])
         | Some (Inr u, s1, tr) \<Rightarrow>
             (case notify n env s1 listeners (i + 1) of
                None \<Rightarrow> None
              | Some (r, s2, tr') \<Rightarrow> Some (r, s2, Invoke listener seen tr None # tr')))
      else Some (Inr (), s, []))"
| "run n env s [] = Some (Inr (), s, [])"
| "run n env s (Dispatch action # rest) =
     (case dispatch n env s action of
        None \<Rightarrow> None
      | Some (Inl e, s1, tr) \<Rightarrow> Some (Inl e, s1, tr)
      | Some (Inr a, s1, tr) \<Rightarrow>
          (case run n env s1 rest of
             None \<Rightarrow> None
           | Some (r, s2, tr') \<Rightarrow> Some (r, s2, tr @ tr')))"
| "run n env s (ReplaceReducer nextReducer # rest) =
     (case nextReducer of
        NotFn v \<Rightarrow> Some (Inl (Error ''Expected the nextReducer to be a function.''), s, [])
      | Fn r \<Rightarrow>
          (case dispatch n env (s\<lparr>currentReducer := r\<rparr>) INIT_action of
             None \<Rightarrow> None
           | Some (Inl e, s1, tr) \<Rightarrow> Some (Inl e, s1, tr)
           | Some (Inr a, s1, tr) \<Rightarrow>
               (case run n env s1 rest of
                  None \<Rightarrow> None
                | Some (r, s2, tr') \<Rightarrow> Some (r, s2, tr @ tr'))))"
| "run n env s (Subscribe listener # rest) =
     (case subscribe s listener of
        (Inl e, s1, tr) \<Rightarrow> Some (Inl e, s1, tr)
      | (Inr u, s1, tr) \<Rightarrow>
          (case run n env s1 rest of
             None \<Rightarrow> None
           | Some (r, s2, tr') \<Rightarrow> Some (r, s2, tr @ tr')))"
| "run n env s (Unsubscribe u # rest) =
     (case unsubscribe s u of
        (Inl e, s1, tr) \<Rightarrow> Some (Inl e, s1, tr)
      | (Inr x, s1, tr) \<Rightarrow>
          (case run n env s1 rest of
             None \<Rightarrow> None
           | Some (r, s2, tr') \<Rightarrow> Some (r, s2, tr @ tr')))"
| "run n env s (Throw e # rest) = Some (Inl e, s, [])"

text \<open>
  \<open>createStore(reducer, preloadedState)\<close> with no enhancer: the checks, the initial values of
  the variables, and the first \<open>dispatch({ type: ActionTypes.INIT })\<close>. With an enhancer the
  call is \<open>enhancer(createStore)(reducer, preloadedState)\<close>, which is \<open>applyMiddleware\<close> below
  applied to this function.
\<close>

definition createStore :: "nat \<Rightarrow> env \<Rightarrow> nat fnarg \<Rightarrow> jsval \<Rightarrow> ((exn + store) \<times> event list) option" where
  "createStore fuel env reducer preloadedState =
     (case reducer of
        NotFn v \<Rightarrow> Some (Inl (Error ''Expected the reducer to be a function.''), [])
      | Fn r \<Rightarrow>
          (case dispatch fuel env
                  \<lparr>currentReducer = r, currentState = preloadedState, currentListeners = 0,
                   nextListeners = 0, isDispatching = False, arrays = [[]], subscriptions = []\<rparr>
                  INIT_action of
             None \<Rightarrow> None
           | Some (Inl e, s, tr) \<Rightarrow> Some (Inl e, tr)
           | Some (Inr a, s, tr) \<Rightarrow> Some (Inr s, tr)))"

section \<open>Notions for stating the properties of the store\<close>

text \<open>The listeners that a notification loop called, in order: the \<open>Invoke\<close> events at the
  top of its events.\<close>

fun top_invocations :: "event list \<Rightarrow> nat list" where
  "top_invocations [] = []"
| "top_invocations (Invoke l v es x # rest) = l # top_invocations rest"
| "top_invocations (e # rest) = top_invocations rest"

fun is_Invoke :: "event \<Rightarrow> bool" where
  "is_Invoke (Invoke l v es x) = True"
| "is_Invoke e = False"

fun escaped :: "event \<Rightarrow> exn option" where
  "escaped (Invoke l v es x) = x"
| "escaped e = None"

text \<open>The state after the events, from the state before them: the value of the last
  \<open>Transition\<close>, at any depth.\<close>

fun final_state :: "jsval \<Rightarrow> event list \<Rightarrow> jsval" where
  "final_state cur [] = cur"
| "final_state cur (Transition v # rest) = final_state v rest"
| "final_state cur (Invoke l v es x # rest) = final_state (final_state cur es) rest"
| "final_state cur (e # rest) = final_state cur rest"

text \<open>Every listener call among the events, at any depth, read the state that the latest
  transition before it had assigned (\<open>cur\<close>, where there is none).\<close>

fun observes :: "jsval \<Rightarrow> event list \<Rightarrow> bool" where
  "observes cur [] = True"
| "observes cur (Transition v # rest) = observes v rest"
| "observes cur (Invoke l v es x # rest) =
     (v = cur \<and> observes cur es \<and> observes (final_state cur es) rest)"
| "observes cur (e # rest) = observes cur rest"

text \<open>The registered listeners, in registration order: the array that \<open>subscribe\<close> and
  \<open>unsubscribe\<close> write and that the next notification takes its snapshot of.\<close>

definition registered :: "store \<Rightarrow> nat list" where
  "registered s = array_at s (nextListeners s)"

text \<open>The listeners of the subscriptions that have not been cancelled. A store is consistent
  when its registered listeners are these, each as many times as it has such subscriptions.
  The store that \<open>createStore\<close> returns is consistent, and every operation keeps it so.\<close>

definition active :: "store \<Rightarrow> nat list" where
  "active s = map fst (filter snd (subscriptions s))"

definition consistent :: "store \<Rightarrow> bool" where
  "consistent s \<longleftrightarrow>
     nextListeners s < length (arrays s) \<and>
     (\<forall>l. count_list (registered s) l = count_list (active s) l)"

text \<open>The list of registered listeners after the events, from the list before them, as the
  specification has it: a subscription adds the listener at the end, and an unsubscription
  takes out one registration of the listener, the first in the list.\<close>

fun replay :: "event list \<Rightarrow> nat list \<Rightarrow> nat list" where
  "replay [] ls = ls"
| "replay (Subscribed l # rest) ls = replay rest (ls @ [l])"
| "replay (Unsubscribed l # rest) ls = replay rest (remove1 l ls)"
| "replay (Invoke l v es x # rest) ls = replay rest (replay es ls)"
| "replay (e # rest) ls = replay rest ls"

text \<open>How many times the events subscribe a listener, and unsubscribe it, at any depth.\<close>

fun subscribed :: "nat \<Rightarrow> event list \<Rightarrow> nat" where
  "subscribed l [] = 0"
| "subscribed l (Subscribed k # rest) = (if k = l then 1 else 0) + subscribed l rest"
| "subscribed l (Invoke k v es x # rest) = subscribed l es + subscribed l rest"
| "subscribed l (e # rest) = subscribed l rest"

fun unsubscribed :: "nat \<Rightarrow> event list \<Rightarrow> nat" where
  "unsubscribed l [] = 0"
| "unsubscribed l (Unsubscribed k # rest) = (if k = l then 1 else 0) + unsubscribed l rest"
| "unsubscribed l (Invoke k v es x # rest) = unsubscribed l es + unsubscribed l rest"
| "unsubscribed l (e # rest) = unsubscribed l rest"

text \<open>The events that a reducer can leave behind when it returns: subscriptions and
  unsubscriptions.\<close>

fun is_registration :: "event \<Rightarrow> bool" where
  "is_registration (Subscribed l) = True"
| "is_registration (Unsubscribed l) = True"
| "is_registration e = False"

text \<open>No \<open>dispatch\<close> among the events, at any depth, was rejected for \<open>isDispatching\<close>.\<close>

fun no_rejected :: "event list \<Rightarrow> bool" where
  "no_rejected [] = True"
| "no_rejected (Rejected a # rest) = False"
| "no_rejected (Invoke l v es x # rest) = (no_rejected es \<and> no_rejected rest)"
| "no_rejected (e # rest) = no_rejected rest"

text \<open>Callback code that calls neither \<open>dispatch\<close> nor \<open>replaceReducer\<close>; code that leaves
  the listeners alone.\<close>

fun dispatches :: "cmd \<Rightarrow> bool" where
  "dispatches (Dispatch a) = True"
| "dispatches (ReplaceReducer r) = True"
| "dispatches c = False"

fun registers :: "cmd \<Rightarrow> bool" where
  "registers (Subscribe l) = True"
| "registers (Unsubscribe u) = True"
| "registers c = False"


text \<open>A relation between the store before a call, the events of the call and the store after
  it is kept by the store when it holds of no event, composes along consecutive calls, and is
  carried over each step of \<open>dispatch\<close>, \<open>subscribe\<close> and \<open>unsubscribe\<close>.\<close>

definition kept_by :: "env \<Rightarrow> (store \<Rightarrow> event list \<Rightarrow> store \<Rightarrow> bool) \<Rightarrow> bool" where
  "kept_by env R \<longleftrightarrow>
     (\<forall>s. R s [] s) \<and>
     (\<forall>s tr s1 tr' s2. R s tr s1 \<longrightarrow> R s1 tr' s2 \<longrightarrow> R s (tr @ tr') s2) \<and>
     (\<forall>s a. isDispatching s \<longrightarrow> R s [Rejected a] s) \<and>
     (\<forall>n s a body v e s1 tr.
        \<not> isDispatching s \<longrightarrow> reducer_of env (currentReducer s) (currentState s) a = (body, v) \<longrightarrow>
        run n env (s\<lparr>isDispatching := True\<rparr>) body = Some (Inl e, s1, tr) \<longrightarrow>
        R (s\<lparr>isDispatching := True\<rparr>) tr s1 \<longrightarrow> R s tr (s1\<lparr>isDispatching := False\<rparr>)) \<and>
     (\<forall>n s a body v u s1 tr.
        \<not> isDispatching s \<longrightarrow> reducer_of env (currentReducer s) (currentState s) a = (body, v) \<longrightarrow>
        run n env (s\<lparr>isDispatching := True\<rparr>) body = Some (Inr u, s1, tr) \<longrightarrow>
        R (s\<lparr>isDispatching := True\<rparr>) tr s1 \<longrightarrow>
        R s (tr @ [Transition v])
          (s1\<lparr>currentState := v, isDispatching := False, currentListeners := nextListeners s1\<rparr>)) \<and>
     (\<forall>s tr s1 l x. R s tr s1 \<longrightarrow> R s [Invoke l (getState s) tr x] s1) \<and>
     (\<forall>s r tr s1. R (s\<lparr>currentReducer := r\<rparr>) tr s1 \<longrightarrow> R s tr s1) \<and>
     (\<forall>s f r s1 tr. subscribe s f = (r, s1, tr) \<longrightarrow> R s tr s1) \<and>
     (\<forall>s u r s1 tr. unsubscribe s u = (r, s1, tr) \<longrightarrow> R s tr s1)"

text \<open>An array that \<open>nextListeners\<close> does not name, unless \<open>currentListeners\<close> names it too, is
  never written.\<close>

definition settled :: "nat \<Rightarrow> store \<Rightarrow> bool" where
  "settled A s \<longleftrightarrow> A < length (arrays s) \<and> (nextListeners s = A \<longrightarrow> currentListeners s = A)"

subsection \<open>Example stores\<close>

text \<open>A transition function that has no effect on the store: it returns or throws.\<close>

definition pure_reducer :: "reducer \<Rightarrow> jsval \<Rightarrow> action \<Rightarrow> cmd list \<times> jsval" where
  "pure_reducer f state action =
     (case f state action of Inl e \<Rightarrow> ([Throw e], JUndefined) | Inr v \<Rightarrow> ([], v))"

definition example_env :: env where
  "example_env =
     \<lparr>reducer_of = (\<lambda>rd. pure_reducer counter),
      listener_of = (\<lambda>l seen.
         if l = 0 then (if seen = JNum 1 then [Dispatch INC] else [])
         else if l = 1 then [Subscribe (Fn 2), Unsubscribe 1]
         else if l = 3 then [Throw (Error ''boom'')]
         else [])\<rparr>"

definition reentrant_env :: env where
  "reentrant_env =
     example_env\<lparr>reducer_of := (\<lambda>rd state action. ([Subscribe (Fn 2), Dispatch INC], state))\<rparr>"

text \<open>A reducer that cancels the first subscription and returns 1, with listeners that do
  nothing.\<close>

definition unsubscribing_env :: env where
  "unsubscribing_env =
     \<lparr>reducer_of = (\<lambda>rd state action. ([Unsubscribe 0], JNum 1)),
      listener_of = (\<lambda>l seen. [])\<rparr>"

definition example_store :: store where
  "example_store =
     \<lparr>currentReducer = 0, currentState = JNum 0, currentListeners = 0, nextListeners = 1,
      isDispatching = False, arrays = [[], [0, 1]], subscriptions = [(0, True), (1, True)]\<rparr>"

definition throwing_store :: store where
  "throwing_store =
     \<lparr>currentReducer = 0, currentState = JNum 0, currentListeners = 0, nextListeners = 0,
      isDispatching = False, arrays = [[2, 3, 1]],
      subscriptions = [(2, True), (3, True), (1, True)]\<rparr>"


section \<open>applyMiddleware\<close>

text \<open>What the closures of \<open>applyMiddleware\<close> share: the store made by \<open>createStore\<close>
  and the variable \<open>dispatch\<close>, which holds \<open>store.dispatch\<close> until it is assigned the
  composed function, once; \<open>rebound\<close> tells which of the two it holds. \<open>log\<close> is what the
  middlewares have printed and \<open>seen\<close> the events of the store.\<close>

record world =
  store :: store
  rebound :: bool
  log :: "string list"
  seen :: "event list"

text \<open>A dispatch function returns or throws, or runs out of fuel; its return value is left
  out.\<close>

type_synonym dfun = "action \<Rightarrow> world \<Rightarrow> ((exn + unit) \<times> world) option"

text \<open>A middleware is a function \<open>api => next => action => ...\<close>. The code of its first
  stage runs when the chain is built and the code of its last stage for each action; each
  may call \<open>api.dispatch\<close>, and the last stage \<open>next\<close>, which the first stage does not have.\<close>

datatype mcmd = CallApi action | CallNext action | Log string | Raise exn

record middleware =
  on_create :: "mcmd list"
  on_action :: "action \<Rightarrow> mcmd list"

fun run_middleware :: "dfun \<Rightarrow> dfun \<Rightarrow> mcmd list \<Rightarrow> world \<Rightarrow> ((exn + unit) \<times> world) option" where
  "run_middleware api next [] w = Some (Inr (), w)"
| "run_middleware api next (CallApi a # rest) w =
     (case api a w of
        None \<Rightarrow> None
      | Some (Inl e, w1) \<Rightarrow> Some (Inl e, w1)
      | Some (Inr u, w1) \<Rightarrow> run_middleware api next rest w1)"
| "run_middleware api next (CallNext a # rest) w =
     (case next a w of
        None \<Rightarrow> None
      | Some (Inl e, w1) \<Rightarrow> Some (Inl e, w1)
      | Some (Inr u, w1) \<Rightarrow> run_middleware api next rest w1)"
| "run_middleware api next (Log m # rest) w = run_middleware api next rest (w\<lparr>log := log w @ [m]\<rparr>)"
| "run_middleware api next (Raise e # rest) w = Some (Inl e, w)"

text \<open>\<open>store.dispatch\<close>.\<close>

definition store_dispatch :: "nat \<Rightarrow> env \<Rightarrow> dfun" where
  "store_dispatch n env a w =
     (case dispatch n env (store w) a of
        None \<Rightarrow> None
      | Some (r, s', tr) \<Rightarrow>
          Some (case r of Inl e \<Rightarrow> Inl e | Inr x \<Rightarrow> Inr (), w\<lparr>store := s', seen := seen w @ tr\<rparr>))"

text \<open>A call of \<open>undefined\<close>.\<close>

definition not_a_function :: dfun where
  "not_a_function a w = Some (Inl (TypeError ''not a function''), w)"

text \<open>\<open>middleware(middlewareAPI)\<close>, the function of \<open>next\<close> that goes into \<open>chain\<close>.\<close>

definition wrap :: "middleware \<Rightarrow> dfun \<Rightarrow> dfun jsfun" where
  "wrap m api = (\<lambda>args. Inr (\<lambda>a w.
     run_middleware api (case args of [] \<Rightarrow> not_a_function | next # xs \<Rightarrow> next) (on_action m a) w))"

text \<open>\<open>compose(...chain)(store.dispatch)\<close>, for a given \<open>middlewareAPI.dispatch\<close>.\<close>

definition chain_dispatch :: "dfun \<Rightarrow> middleware list \<Rightarrow> dfun \<Rightarrow> dfun" where
  "chain_dispatch api ms base a w =
     (case compose not_a_function (map (\<lambda>m. wrap m api) ms) [base] of
        Inl e \<Rightarrow> Some (Inl e, w)
      | Inr d \<Rightarrow> d a w)"

text \<open>The composed function calls the middlewares, whose \<open>api.dispatch\<close> reads the variable
  \<open>dispatch\<close>, which holds the composed function again: \<open>k\<close> bounds the depth of these
  calls.\<close>

primrec composed_dispatch :: "nat \<Rightarrow> middleware list \<Rightarrow> dfun \<Rightarrow> dfun" where
  "composed_dispatch 0 ms base = (\<lambda>a w. None)"
| "composed_dispatch (Suc k) ms base =
     chain_dispatch (\<lambda>a w. if rebound w then composed_dispatch k ms base a w else base a w) ms base"

text \<open>\<open>middlewareAPI.dispatch\<close>, that is \<open>(action) => dispatch(action)\<close>.\<close>

definition middlewareAPI_dispatch :: "nat \<Rightarrow> middleware list \<Rightarrow> dfun \<Rightarrow> dfun" where
  "middlewareAPI_dispatch k ms base a w =
     (if rebound w then composed_dispatch k ms base a w else base a w)"

text \<open>\<open>middlewares.map(middleware => middleware(middlewareAPI))\<close>: the first stage of each
  middleware runs, in order.\<close>

fun create_chain :: "dfun \<Rightarrow> middleware list \<Rightarrow> world \<Rightarrow> ((exn + unit) \<times> world) option" where
  "create_chain api [] w = Some (Inr (), w)"
| "create_chain api (m # ms) w =
     (case run_middleware api not_a_function (on_create m) w of
        None \<Rightarrow> None
      | Some (Inl e, w1) \<Rightarrow> Some (Inl e, w1)
      | Some (Inr u, w1) \<Rightarrow> create_chain api ms w1)"

text \<open>\<open>applyMiddleware(...middlewares)(createStore)(reducer, preloadedState)\<close>, for the
  \<open>createStore\<close> of this library. The object it returns is the store with \<open>dispatch\<close>
  replaced by the composed function, \<open>composed_dispatch\<close>.\<close>

definition applyMiddleware ::
  "nat \<Rightarrow> nat \<Rightarrow> env \<Rightarrow> middleware list \<Rightarrow> nat fnarg \<Rightarrow> jsval \<Rightarrow> (exn + world) option" where
  "applyMiddleware k n env middlewares reducer preloadedState =
     (case createStore n env reducer preloadedState of
        None \<Rightarrow> None
      | Some (Inl e, tr) \<Rightarrow> Some (Inl e)
      | Some (Inr s, tr) \<Rightarrow>
          (let w = \<lparr>store = s, rebound = False, log = [], seen = tr\<rparr>;
               api = middlewareAPI_dispatch k middlewares (store_dispatch n env)
           in case create_chain api middlewares w of
                None \<Rightarrow> None
              | Some (Inl e, w1) \<Rightarrow> Some (Inl e)
              | Some (Inr u, w1) \<Rightarrow>
                  (case compose not_a_function (map (\<lambda>m. wrap m api) middlewares)
                          [store_dispatch n env] of
                     Inl e \<Rightarrow> Some (Inl e)
                   | Inr d \<Rightarrow> Some (Inr (w1\<lparr>rebound := True\<rparr>)))))"

subsection \<open>Example middlewares\<close>

text \<open>\<open>logger\<close> prints its name and passes the action on; \<open>early\<close> dispatches while the chain
  is being built.\<close>

definition logger :: "string \<Rightarrow> middleware" where
  "logger name = \<lparr>on_create = [], on_action = (\<lambda>a. [Log name, CallNext a])\<rparr>"

definition early :: middleware where
  "early = \<lparr>on_create = [CallApi INC], on_action = (\<lambda>a. [CallNext a])\<rparr>"

section \<open>Properties of compose\<close>

lemma foldl_compose_step:
  "fs \<noteq> [] \<Longrightarrow>
   foldl compose_step a fs = (\<lambda>args. case right_to_left fs args of Inl e \<Rightarrow> Inl e | Inr r \<Rightarrow> a [r])"
proof (induction fs arbitrary: a)
  case Nil
  then show ?case by simp
next
  case (Cons g gs)
  show ?case
  proof (cases gs)
    case Nil
    then show ?thesis by (simp add: compose_step_def)
  next
    case (Cons h hs)
    then have "gs \<noteq> []" by simp
    from Cons.IH [OF this, of "compose_step a g"] Cons
    show ?thesis
      by (auto simp: compose_step_def fun_eq_iff split: sum.splits)
  qed
qed

text \<open>
  Claim C8. \<open>compose\<close> of no function returns its single argument; \<open>compose\<close> of one
  function is that function; \<open>compose\<close> of two or more functions is their right-to-left
  composition, the rightmost function receiving the original argument list and every
  function to its left exactly one argument, so that
  \<open>compose(f, g, h)(x) = f(g(h(x)))\<close> whenever \<open>h(x)\<close> and \<open>g(h(x))\<close> return.
\<close>

theorem compose_right_to_left:
  "compose undef [] [x] = Inr x \<and>
   compose undef [f] = f \<and>
   compose undef (f # g # fs) args =
     (case right_to_left (g # fs) args of Inl e \<Rightarrow> Inl e | Inr r \<Rightarrow> f [r]) \<and>
   compose undef [f, g, h] [x] =
     (case h [x] of Inl e \<Rightarrow> Inl e
      | Inr y \<Rightarrow> (case g [y] of Inl e \<Rightarrow> Inl e | Inr z \<Rightarrow> f [z]))"
proof -
  have none: "compose undef [] [x] = Inr x" by (simp add: compose_def)
  have one: "compose undef [f] = f" by (simp add: compose_def)
  have gen: "\<And>f g fs args. compose undef (f # g # fs) args =
      (case right_to_left (g # fs) args of Inl e \<Rightarrow> Inl e | Inr r \<Rightarrow> f [r])"
    by (simp add: compose_def foldl_compose_step del: foldl_Cons)
  have three: "compose undef [f, g, h] [x] =
     (case h [x] of Inl e \<Rightarrow> Inl e
      | Inr y \<Rightarrow> (case g [y] of Inl e \<Rightarrow> Inl e | Inr z \<Rightarrow> f [z]))"
    by (simp add: gen split: sum.splits)
  from none one gen [of f g fs args] three show ?thesis by blast
qed

section \<open>Properties of combineReducers\<close>

lemma combination_loop_frame:
  "combination_loop rt st a n rs hc h = (r, h') \<Longrightarrow>
   length h' = length h \<and> (\<forall>i. i \<noteq> n \<longrightarrow> h' ! i = h ! i)"
  by (induction rs arbitrary: hc h) (auto split: sum.splits if_splits)

lemma read_key_update:
  "\<forall>i. st = JRef i \<longrightarrow> i \<noteq> n \<Longrightarrow> read_key rt (h[n := x]) st k = read_key rt h st k"
  by (cases st) auto

lemma read_key_fresh:
  "\<forall>i. st = JRef i \<longrightarrow> i < length h \<Longrightarrow> read_key rt (h @ [x]) st k = read_key rt h st k"
  by (cases st) (auto simp: nth_append)

lemma previous_update:
  "\<forall>i. st = JRef i \<longrightarrow> i \<noteq> n \<Longrightarrow> previous rt (h[n := x]) st k = previous rt h st k"
  by (simp add: previous_def read_key_update)

lemma read_key_previous:
  "read_key rt h st k = Inr p \<Longrightarrow> previous rt h st k = p"
  by (simp add: previous_def)

lemma combination_loop_ok:
  assumes "\<forall>i. st = JRef i \<longrightarrow> i \<noteq> n" "n < length h"
    and "\<forall>(k, r) \<in> set rs. \<exists>p v. read_key rt h st k = Inr p \<and> r p a = Inr v \<and> v \<noteq> JUndefined"
  shows "combination_loop rt st a n rs hc h =
           (Inr (hc \<or> (\<exists>(k, r) \<in> set rs. \<not> strict_equal (returned (r (previous rt h st k) a)) (previous rt h st k))),
            h[n := foldl (\<lambda>ps (k, r). put ps k (returned (r (previous rt h st k) a))) (h ! n) rs])"
  using assms
proof (induction rs arbitrary: hc h)
  case Nil
  then show ?case by simp
next
  case (Cons q rs)
  obtain k r where q: "q = (k, r)" by (cases q)
  from Cons.prems q obtain p v where
    p: "read_key rt h st k = Inr p" and v: "r p a = Inr v" "v \<noteq> JUndefined"
    by auto
  have pk: "previous rt h st k = p" using p by (rule read_key_previous)
  let ?h = "h[n := put (h ! n) k v]"
  have rd: "\<And>k'. read_key rt ?h st k' = read_key rt h st k'"
    using Cons.prems(1) by (simp add: read_key_update)
  have prev: "\<And>k'. previous rt ?h st k' = previous rt h st k'"
    using Cons.prems(1) by (simp add: previous_update)
  have "combination_loop rt st a n rs (hc \<or> \<not> strict_equal v p) ?h =
      (Inr ((hc \<or> \<not> strict_equal v p) \<or> (\<exists>(k, r) \<in> set rs. \<not> strict_equal (returned (r (previous rt ?h st k) a)) (previous rt ?h st k))),
       ?h[n := foldl (\<lambda>ps (k, r). put ps k (returned (r (previous rt ?h st k) a))) (?h ! n) rs])"
    using Cons.prems by (intro Cons.IH) (auto simp: rd)
  then show ?case
    using p v pk Cons.prems(2) by (auto simp: q prev returned_def)
qed

lemma put_fresh: "k \<notin> fst ` set ps \<Longrightarrow> put ps k v = ps @ [(k, v)]"
  by (induction ps) auto

lemma foldl_put_distinct:
  "distinct (map fst rs) \<Longrightarrow> fst ` set ps \<inter> fst ` set rs = {} \<Longrightarrow>
   foldl (\<lambda>ps (k, r). put ps k (f k r)) ps rs = ps @ map (\<lambda>(k, r). (k, f k r)) rs"
proof (induction rs arbitrary: ps)
  case Nil
  then show ?case by simp
next
  case (Cons p rs)
  obtain k r where p: "p = (k, r)" by (cases p)
  have 1: "put ps k (f k r) = ps @ [(k, f k r)]"
    using Cons.prems p by (intro put_fresh) auto
  have "foldl (\<lambda>ps (k, r). put ps k (f k r)) (ps @ [(k, f k r)]) rs =
        (ps @ [(k, f k r)]) @ map (\<lambda>(k, r). (k, f k r)) rs"
    using Cons.prems p by (intro Cons.IH) (auto simp: image_iff)
  then show ?case by (simp add: p 1)
qed

lemma retain_keys: "set (map fst (retain rs)) \<subseteq> set (map fst rs)"
  by (induction rs rule: retain.induct) auto

lemma distinct_retain: "distinct (map fst rs) \<Longrightarrow> distinct (map fst (retain rs))"
proof (induction rs rule: retain.induct)
  case (2 key f rest)
  then show ?case using retain_keys [of rest] by auto
qed auto

lemma finalReducers_combineReducers:
  "finalReducers (fst (combineReducers rnd reducers)) = retain reducers"
  by (simp add: combineReducers_def Let_def split: prod.splits)

lemma combination_result:
  assumes "distinct (map fst reducers)"
    and "c = fst (combineReducers rnd reducers)"
    and "rethrown (shapeAssertionError c) = None"
    and "default_state h0 state0 = (h, state)"
    and "\<forall>i. state0 = JRef i \<longrightarrow> i < length h0"
    and "\<forall>(key, reducer) \<in> set (finalReducers c).
           \<exists>p v. read_key rt h state key = Inr p \<and> reducer p action = Inr v \<and> v \<noteq> JUndefined"
  shows "combination rt c h0 state0 action =
           (Inr (if \<forall>(key, reducer) \<in> set (finalReducers c).
                      strict_equal (returned (reducer (previous rt h state key) action)) (previous rt h state key)
                 then state else JRef (length h)),
            h @ [map (\<lambda>(key, reducer). (key, returned (reducer (previous rt h state key) action)))
                   (finalReducers c)])
         \<and> state \<noteq> JRef (length h)"
proof -
  have st: "\<forall>i. state = JRef i \<longrightarrow> i < length h"
    using assms(4,5) by (auto simp: default_state_def split: if_splits)
  then have ne: "\<forall>i. state = JRef i \<longrightarrow> i \<noteq> length h" by auto
  have rd: "\<And>k. read_key rt (h @ [[]]) state k = read_key rt h state k"
    using st by (rule read_key_fresh)
  then have prev: "\<And>k. previous rt (h @ [[]]) state k = previous rt h state k"
    by (simp add: previous_def)
  have d: "distinct (map fst (finalReducers c))"
    using assms(1,2) by (simp add: finalReducers_combineReducers distinct_retain)
  have ok: "\<forall>(k, r) \<in> set (finalReducers c).
      \<exists>p v. read_key rt (h @ [[]]) state k = Inr p \<and> r p action = Inr v \<and> v \<noteq> JUndefined"
    using assms(6) by (simp add: rd)
  have loop: "combination_loop rt state action (length h) (finalReducers c) False (h @ [[]]) =
      (Inr (\<exists>(k, r) \<in> set (finalReducers c). \<not> strict_equal (returned (r (previous rt h state k) action)) (previous rt h state k)),
       h @ [foldl (\<lambda>ps (k, r). put ps k (returned (r (previous rt h state k) action))) [] (finalReducers c)])"
    using combination_loop_ok [OF ne _ ok, of False] by (simp add: prev)
  have built: "foldl (\<lambda>ps (k, r). put ps k (returned (r (previous rt h state k) action))) [] (finalReducers c)
      = map (\<lambda>(key, reducer). (key, returned (reducer (previous rt h state key) action))) (finalReducers c)"
    using foldl_put_distinct [OF d, of "[]" "\<lambda>k r. returned (r (previous rt h state k) action)"] by simp
  show ?thesis
    using loop ne by (auto simp: combination_def assms(3,4) built)
qed


lemma combination_loop_append:
  "combination_loop rt st a n (xs @ ys) hc h =
     (case combination_loop rt st a n xs hc h of
        (Inl e, h') \<Rightarrow> (Inl e, h')
      | (Inr hc', h') \<Rightarrow> combination_loop rt st a n ys hc' h')"
  by (induction xs arbitrary: hc h) (auto split: sum.splits)

lemma fst_combination:
  "fst (combination rt c h0 state0 action) =
     (case default_state h0 state0 of
        (h, state) \<Rightarrow>
          (case rethrown (shapeAssertionError c) of
             Some e \<Rightarrow> Inl e
           | None \<Rightarrow>
               (case fst (combination_loop rt state action (length h) (finalReducers c) False (h @ [[]])) of
                  Inl e \<Rightarrow> Inl e
                | Inr hc \<Rightarrow> Inr (if hc then JRef (length h) else state))))"
proof -
  obtain h state where ds: "default_state h0 state0 = (h, state)"
    by (cases "default_state h0 state0")
  obtain r h' where loop:
    "combination_loop rt state action (length h) (finalReducers c) False (h @ [[]]) = (r, h')"
    by (cases "combination_loop rt state action (length h) (finalReducers c) False (h @ [[]])")
  show ?thesis
    by (cases "rethrown (shapeAssertionError c)"; cases r)
      (simp_all add: combination_def ds loop Let_def)
qed


lemma combination_loop_heap_cong:
  assumes "\<forall>i. st = JRef i \<longrightarrow> i \<noteq> n"
    and "\<forall>(k, r) \<in> set rs. read_key rt h2 st k = read_key rt h st k"
  shows "fst (combination_loop rt st a n rs hc h2) = fst (combination_loop rt st a n rs hc h)"
  using assms
proof (induction rs arbitrary: hc h h2)
  case Nil
  then show ?case by simp
next
  case (Cons q rs)
  obtain k r where q: "q = (k, r)" by (cases q)
  have rk: "read_key rt h2 st k = read_key rt h st k" using Cons.prems q by auto
  show ?case
  proof (cases "read_key rt h st k")
    case (Inl e)
    then show ?thesis using rk by (simp add: q)
  next
    case (Inr prev)
    show ?thesis
    proof (cases "r prev a")
      case (Inl e)
      then show ?thesis using rk Inr by (simp add: q)
    next
      case r: (Inr v)
      have "fst (combination_loop rt st a n rs (hc \<or> \<not> strict_equal v prev) (h2[n := put (h2 ! n) k v])) =
            fst (combination_loop rt st a n rs (hc \<or> \<not> strict_equal v prev) (h[n := put (h ! n) k v]))"
        using Cons.prems q by (intro Cons.IH) (auto simp: read_key_update)
      then show ?thesis using rk Inr r by (simp add: q split: sum.splits)
    qed
  qed
qed

lemma map_of_put_other: "k \<noteq> x \<Longrightarrow> map_of (put ps x v) k = map_of ps k"
  by (induction ps) auto


lemma assertReducerShape_append:
  "all_pass rnd i before \<Longrightarrow>
   assertReducerShape rnd i (before @ rest) =
     (case assertReducerShape rnd (i + length before) rest of
        (thrown, cs) \<Rightarrow> (thrown, both_calls rnd i before @ cs))"
proof (induction before arbitrary: i)
  case Nil
  then show ?case by simp
next
  case (Cons p before)
  obtain k r where p: "p = (k, r)" by (cases p)
  from Cons.prems p have 1: "passes rnd i r" and 2: "all_pass rnd (Suc i) before" by auto
  from Cons.IH [OF 2] 1 show ?case
    by (auto simp: p passes_def split: sum.splits prod.splits)
qed

lemma combination_rethrows:
  "rethrown (shapeAssertionError c) = Some e \<Longrightarrow> fst (combination rt c h state action) = Inl e"
  by (simp add: fst_combination split: prod.splits)

text \<open>
  Claim C6, as amended. Validation visits the retained names in order and calls each reducer
  with \<open>undefined\<close> and the INIT action, then with \<open>undefined\<close> and a probe action of a
  freshly drawn type. At the first reducer that returns \<open>undefined\<close> for one of the two it
  throws an error naming that key and makes no further call; \<open>combineReducers\<close> catches the
  error, still returns the transition function, and the function throws that same error on
  every call, whatever its arguments and whatever the engine.
\<close>

theorem shape_error_captured:
  assumes "retain reducers = before @ (key, reducer) # after"
    and "all_pass rnd 0 before"
    and "reducer JUndefined INIT_action = Inr JUndefined \<or>
         (\<exists>v. reducer JUndefined INIT_action = Inr v \<and> v \<noteq> JUndefined \<and>
              reducer JUndefined (probe_action (rnd (length before))) = Inr JUndefined)"
  shows "shapeAssertionError (fst (combineReducers rnd reducers)) =
           Some (Error (if reducer JUndefined INIT_action = Inr JUndefined
                        then init_shape_message key else probe_shape_message key)) \<and>
         snd (combineReducers rnd reducers) =
           both_calls rnd 0 before @
           (if reducer JUndefined INIT_action = Inr JUndefined then [(key, INIT_action)]
            else [(key, INIT_action), (key, probe_action (rnd (length before)))]) \<and>
         (\<forall>rt h state action.
            fst (combination rt (fst (combineReducers rnd reducers)) h state action) =
              Inl (Error (if reducer JUndefined INIT_action = Inr JUndefined
                          then init_shape_message key else probe_shape_message key)))"
proof -
  let ?e = "Error (if reducer JUndefined INIT_action = Inr JUndefined
                        then init_shape_message key else probe_shape_message key)"
  let ?cs = "if reducer JUndefined INIT_action = Inr JUndefined then [(key, INIT_action)]
            else [(key, INIT_action), (key, probe_action (rnd (length before)))]"
  have here: "assertReducerShape rnd (length before) ((key, reducer) # after) = (Some ?e, ?cs)"
    using assms(3) by auto
  have all: "assertReducerShape rnd 0 (retain reducers) = (Some ?e, both_calls rnd 0 before @ ?cs)"
    unfolding assms(1) using assertReducerShape_append [OF assms(2), of "(key, reducer) # after"] here
    by simp
  have c: "combineReducers rnd reducers =
      (\<lparr>finalReducers = retain reducers, shapeAssertionError = Some ?e\<rparr>, both_calls rnd 0 before @ ?cs)"
    by (simp add: combineReducers_def all)
  have "rethrown (shapeAssertionError (fst (combineReducers rnd reducers))) = Some ?e"
    by (simp add: c)
  then have "\<forall>rt h state action. fst (combination rt (fst (combineReducers rnd reducers)) h state action) = Inl ?e"
    by (simp add: combination_rethrows)
  then show ?thesis
    unfolding c by simp
qed

text \<open>
  Claim C6 as stated has validation call the reducer of every retained name. With reducers
  \<open>{a: always_undefined, b: counter}\<close> both names are retained, and the reducer of \<open>b\<close> is
  never called: the \<open>throw\<close> for \<open>a\<close> ends the \<open>forEach\<close>.
\<close>

theorem validation_stops_at_first_failure:
  "(''b'', INIT_action) \<notin> set (snd (combineReducers example_draw
       [(''a'', Fn always_undefined), (''b'', Fn counter)])) \<and>
   finalReducerKeys (fst (combineReducers example_draw
       [(''a'', Fn always_undefined), (''b'', Fn counter)])) = [''a'', ''b'']"
  by (simp add: combineReducers_def always_undefined_def finalReducerKeys_def)

lemmas ex_simps = combineReducers_def counter_def always_undefined_def undefined_on_def keep_def
  INIT_action_def probe_action_def ActionTypes_INIT_def example_draw_def INC_def
  default_state_def previous_def own_prop_def returned_def finalReducerKeys_def passes_def
  Let_def action_and_type_def plain_runtime_def Object_prototype_def strict_equal_def


theorem shape_error_captured_witness:
  "shapeAssertionError (fst (combineReducers example_draw
       [(''count'', Fn counter), (''a'', Fn always_undefined), (''b'', Fn counter)])) =
     Some (Error (init_shape_message ''a'')) \<and>
   snd (combineReducers example_draw
       [(''count'', Fn counter), (''a'', Fn always_undefined), (''b'', Fn counter)]) =
     [(''count'', INIT_action), (''count'', probe_action ''x7''), (''a'', INIT_action)] \<and>
   fst (combination plain_runtime (fst (combineReducers example_draw
       [(''count'', Fn counter), (''a'', Fn always_undefined), (''b'', Fn counter)])) [] JUndefined INIT_action) =
     Inl (Error (init_shape_message ''a'')) \<and>
   fst (combination plain_runtime (fst (combineReducers example_draw
       [(''count'', Fn counter), (''a'', Fn always_undefined), (''b'', Fn counter)])) [[(''count'', JNum 3)]] (JRef 0) INC) =
     Inl (Error (init_shape_message ''a''))"
proof -
  let ?rs = "[(''count'', Fn counter), (''a'', Fn always_undefined), (''b'', Fn counter)]"
  have 1: "retain ?rs = [(''count'', counter)] @ (''a'', always_undefined) # [(''b'', counter)]"
    by simp
  have 2: "all_pass example_draw 0 [(''count'', counter)]"
    by (simp add: ex_simps)
  have 3: "always_undefined JUndefined INIT_action = Inr JUndefined \<or>
         (\<exists>v. always_undefined JUndefined INIT_action = Inr v \<and> v \<noteq> JUndefined \<and>
              always_undefined JUndefined (probe_action (example_draw (length [(''count'', counter)]))) = Inr JUndefined)"
    by (simp add: always_undefined_def)
  have e: "example_draw 0 = ''x7''" by (simp add: example_draw_def)
  from shape_error_captured [OF 1 2 3] show ?thesis
    by (simp add: always_undefined_def e)
qed




section \<open>Properties of the store\<close>

lemma run_relates:
  fixes R :: "store \<Rightarrow> event list \<Rightarrow> store \<Rightarrow> bool"
  assumes rrefl: "\<And>s. R s [] s"
    and rtrans: "\<And>s tr s1 tr' s2. R s tr s1 \<Longrightarrow> R s1 tr' s2 \<Longrightarrow> R s (tr @ tr') s2"
    and rejected: "\<And>s a. isDispatching s \<Longrightarrow> R s [Rejected a] s"
    and reduce_fail: "\<And>n s a body v e s1 tr.
        \<not> isDispatching s \<Longrightarrow> reducer_of env (currentReducer s) (currentState s) a = (body, v) \<Longrightarrow>
        run n env (s\<lparr>isDispatching := True\<rparr>) body = Some (Inl e, s1, tr) \<Longrightarrow>
        R (s\<lparr>isDispatching := True\<rparr>) tr s1 \<Longrightarrow> R s tr (s1\<lparr>isDispatching := False\<rparr>)"
    and reduce_ok: "\<And>n s a body v u s1 tr.
        \<not> isDispatching s \<Longrightarrow> reducer_of env (currentReducer s) (currentState s) a = (body, v) \<Longrightarrow>
        run n env (s\<lparr>isDispatching := True\<rparr>) body = Some (Inr u, s1, tr) \<Longrightarrow>
        R (s\<lparr>isDispatching := True\<rparr>) tr s1 \<Longrightarrow>
        R s (tr @ [Transition v])
          (s1\<lparr>currentState := v, isDispatching := False, currentListeners := nextListeners s1\<rparr>)"
    and invoke: "\<And>s tr s1 l x. R s tr s1 \<Longrightarrow> R s [Invoke l (getState s) tr x] s1"
    and replace: "\<And>s r tr s1. R (s\<lparr>currentReducer := r\<rparr>) tr s1 \<Longrightarrow> R s tr s1"
    and subscribe: "\<And>s f r s1 tr. subscribe s f = (r, s1, tr) \<Longrightarrow> R s tr s1"
    and unsubscribe: "\<And>s u r s1 tr. unsubscribe s u = (r, s1, tr) \<Longrightarrow> R s tr s1"
  shows "dispatch n en s a = Some (ra, s', tr) \<Longrightarrow> en = env \<Longrightarrow> R s tr s'"
    and "notify n en s ls i = Some (rn, s', tr) \<Longrightarrow> en = env \<Longrightarrow> R s tr s'"
    and "run n en s cmds = Some (rn, s', tr) \<Longrightarrow> en = env \<Longrightarrow> R s tr s'"
proof (induction n en s a and n en s ls i and n en s cmds
       arbitrary: ra s' tr and rn s' tr and rn s' tr rule: dispatch_notify_run.induct)
  case (1 en s action)
  then show ?case by simp
next
  case (2 n en s action)
  show ?case
  proof (cases "isPlainObject action \<and> get_type action \<noteq> JUndefined \<and> \<not> isDispatching s")
    case False
    then show ?thesis using "2.prems" by (auto simp: rrefl rejected split: if_splits)
  next
    case True
    obtain body v where red: "reducer_of en (currentReducer s) (currentState s) action = (body, v)"
      by (cases "reducer_of en (currentReducer s) (currentState s) action")
    from "2.prems" True red obtain r1 s1 tr1 where
      r1: "run n en (s\<lparr>isDispatching := True\<rparr>) body = Some (r1, s1, tr1)"
      by (auto split: option.splits)
    have R1: "R (s\<lparr>isDispatching := True\<rparr>) tr1 s1"
      using "2.IH"(1) [OF _ _ _ red [symmetric] r1 "2.prems"(2)] True by simp
    have nd: "\<not> isDispatching s" using True by simp
    note red' = red [unfolded "2.prems"(2)]
    note r1' = r1 [unfolded "2.prems"(2)]
    note R1' = R1
    show ?thesis
    proof (cases r1)
      case (Inl e)
      then have "s' = s1\<lparr>isDispatching := False\<rparr>" "tr = tr1"
        using "2.prems" True red r1 by auto
      then show ?thesis
        using reduce_fail [OF nd red' r1' [unfolded Inl] R1'] by simp
    next
      case (Inr u)
      let ?s3 = "s1\<lparr>currentState := v, isDispatching := False, currentListeners := nextListeners s1\<rparr>"
      from "2.prems" True red r1 Inr obtain r2 tr2 where
        n2: "notify n en ?s3 (nextListeners s1) 0 = Some (r2, s', tr2)" and tr: "tr = tr1 @ Transition v # tr2"
        by (auto simp: Let_def split: option.splits sum.splits)
      have A: "R s (tr1 @ [Transition v]) ?s3"
        using reduce_ok [OF nd red' r1' [unfolded Inr] R1'] by simp
      have B: "R ?s3 tr2 s'"
        using "2.IH"(2) [OF _ _ _ red [symmetric] r1 HOL.refl Inr HOL.refl HOL.refl HOL.refl _ "2.prems"(2)] True n2
        by simp
      from rtrans [OF A B] show ?thesis by (simp add: tr)
    qed
  qed
next
  case (3 en s listeners i)
  then show ?case by (auto simp: rrefl split: if_splits)
next
  case (4 n en s listeners i)
  show ?case
  proof (cases "i < length (array_at s listeners)")
    case False
    then show ?thesis using "4.prems" by (simp add: rrefl)
  next
    case True
    let ?l = "array_at s listeners ! i"
    from "4.prems" True obtain r1 s1 tr1 where
      r1: "run n en s (listener_of en ?l (getState s)) = Some (r1, s1, tr1)"
      by (auto simp: Let_def split: option.splits)
    have R1: "R s tr1 s1"
      using "4.IH"(1) [OF True HOL.refl HOL.refl r1 "4.prems"(2)] .
    show ?thesis
    proof (cases r1)
      case (Inl e)
      then have "s' = s1" "tr = [Invoke ?l (getState s) tr1 (Some e)]"
        using "4.prems" True r1 by (auto simp: Let_def)
      then show ?thesis using invoke [OF R1] by simp
    next
      case (Inr u)
      from "4.prems" True r1 Inr obtain tr2 where
        n2: "notify n en s1 listeners (i + 1) = Some (rn, s', tr2)"
        and tr: "tr = Invoke ?l (getState s) tr1 None # tr2"
        by (auto simp: Let_def split: option.splits)
      have B: "R s1 tr2 s'"
        using "4.IH"(2) [OF True HOL.refl HOL.refl r1 HOL.refl Inr HOL.refl n2 "4.prems"(2)] .
      from rtrans [OF invoke [OF R1] B] show ?thesis by (simp add: tr)
    qed
  qed
next
  case (5 n en s)
  then show ?case by (simp add: rrefl)
next
  case (6 n en s action rest)
  from "6.prems" obtain r1 s1 tr1 where
    d: "dispatch n en s action = Some (r1, s1, tr1)"
    by (auto split: option.splits)
  have R1: "R s tr1 s1" using "6.IH"(1) [OF d "6.prems"(2)] .
  show ?case
  proof (cases r1)
    case (Inl e)
    then show ?thesis using "6.prems" d R1 by auto
  next
    case (Inr a)
    from "6.prems" d Inr obtain tr2 where
      r2: "run n en s1 rest = Some (rn, s', tr2)" and tr: "tr = tr1 @ tr2"
      by (auto split: option.splits)
    have "R s1 tr2 s'" using "6.IH"(2) [OF d HOL.refl Inr HOL.refl r2 "6.prems"(2)] .
    from rtrans [OF R1 this] show ?thesis by (simp add: tr)
  qed
next
  case (7 n en s nextReducer rest)
  show ?case
  proof (cases nextReducer)
    case (NotFn v)
    then show ?thesis using "7.prems" by (simp add: rrefl)
  next
    case (Fn r)
    from "7.prems" Fn obtain r1 s1 tr1 where
      d: "dispatch n en (s\<lparr>currentReducer := r\<rparr>) INIT_action = Some (r1, s1, tr1)"
      by (auto split: option.splits)
    have R1: "R s tr1 s1" using replace [OF "7.IH"(1) [OF Fn d "7.prems"(2)]] .
    show ?thesis
    proof (cases r1)
      case (Inl e)
      then show ?thesis using "7.prems" Fn d R1 by auto
    next
      case (Inr a)
      from "7.prems" Fn d Inr obtain tr2 where
        r2: "run n en s1 rest = Some (rn, s', tr2)" and tr: "tr = tr1 @ tr2"
        by (auto split: option.splits)
      have "R s1 tr2 s'" using "7.IH"(2) [OF Fn d HOL.refl Inr HOL.refl r2 "7.prems"(2)] .
      from rtrans [OF R1 this] show ?thesis by (simp add: tr)
    qed
  qed
next
  case (8 n en s listener rest)
  obtain r1 s1 tr1 where sub: "subscribe s listener = (r1, s1, tr1)"
    by (cases "subscribe s listener")
  have R1: "R s tr1 s1" using subscribe [OF sub] .
  show ?case
  proof (cases r1)
    case (Inl e)
    then show ?thesis using "8.prems" sub R1 by auto
  next
    case (Inr h)
    from "8.prems" sub Inr obtain tr2 where
      r2: "run n en s1 rest = Some (rn, s', tr2)" and tr: "tr = tr1 @ tr2"
      by (auto split: option.splits)
    have "R s1 tr2 s'" using "8.IH" [OF sub [symmetric] Inr HOL.refl r2 "8.prems"(2)] .
    from rtrans [OF R1 this] show ?thesis by (simp add: tr)
  qed
next
  case (9 n en s u rest)
  obtain r1 s1 tr1 where sub: "unsubscribe s u = (r1, s1, tr1)"
    by (cases "unsubscribe s u")
  have R1: "R s tr1 s1" using unsubscribe [OF sub] .
  show ?case
  proof (cases r1)
    case (Inl e)
    then show ?thesis using "9.prems" sub R1 by auto
  next
    case (Inr h)
    from "9.prems" sub Inr obtain tr2 where
      r2: "run n en s1 rest = Some (rn, s', tr2)" and tr: "tr = tr1 @ tr2"
      by (auto split: option.splits)
    have "R s1 tr2 s'" using "9.IH" [OF sub [symmetric] Inr HOL.refl r2 "9.prems"(2)] .
    from rtrans [OF R1 this] show ?thesis by (simp add: tr)
  qed
next
  case (10 n en s e rest)
  then show ?case by (simp add: rrefl)
qed

lemma final_state_append: "final_state cur (tr @ tr') = final_state (final_state cur tr) tr'"
  by (induction cur tr rule: final_state.induct) auto

lemma observes_append:
  "observes cur (tr @ tr') = (observes cur tr \<and> observes (final_state cur tr) tr')"
  by (induction cur tr rule: observes.induct) auto

lemma replay_append: "replay (tr @ tr') ls = replay tr' (replay tr ls)"
  by (induction tr ls rule: replay.induct) auto

lemma no_rejected_append: "no_rejected (tr @ tr') = (no_rejected tr \<and> no_rejected tr')"
  by (induction tr rule: no_rejected.induct) auto

lemma top_invocations_append:
  "top_invocations (tr @ tr') = top_invocations tr @ top_invocations tr'"
  by (induction tr rule: top_invocations.induct) auto

text \<open>The guard is the same after a call as before it.\<close>

lemma subscribe_fields:
  "subscribe s f = (r, s1, tr) \<Longrightarrow>
   isDispatching s1 = isDispatching s \<and> currentState s1 = currentState s \<and>
   currentReducer s1 = currentReducer s \<and> currentListeners s1 = currentListeners s"
  by (auto simp: subscribe_def ensureCanMutateNextListeners_def Let_def split: fnarg.splits if_splits)

lemma unsubscribe_fields:
  "unsubscribe s u = (r, s1, tr) \<Longrightarrow>
   isDispatching s1 = isDispatching s \<and> currentState s1 = currentState s \<and>
   currentReducer s1 = currentReducer s \<and> currentListeners s1 = currentListeners s"
  by (auto simp: unsubscribe_def ensureCanMutateNextListeners_def Let_def split: if_splits prod.splits)

lemma run_kept:
  assumes "kept_by env R"
  shows "dispatch n env s a = Some (ra, s', tr) \<Longrightarrow> R s tr s'"
    and "notify n env s ls i = Some (rn, s', tr) \<Longrightarrow> R s tr s'"
    and "run n env s cmds = Some (rn, s', tr) \<Longrightarrow> R s tr s'"
proof -
  note k = assms [unfolded kept_by_def]
  note o1 = k [THEN conjunct1, rule_format]
  note o2 = k [THEN conjunct2, THEN conjunct1, rule_format]
  note o3 = k [THEN conjunct2, THEN conjunct2, THEN conjunct1, rule_format]
  note o4 = k [THEN conjunct2, THEN conjunct2, THEN conjunct2, THEN conjunct1, rule_format]
  note o5 = k [THEN conjunct2, THEN conjunct2, THEN conjunct2, THEN conjunct2, THEN conjunct1, rule_format]
  note o6 = k [THEN conjunct2, THEN conjunct2, THEN conjunct2, THEN conjunct2, THEN conjunct2, THEN conjunct1, rule_format]
  note o7 = k [THEN conjunct2, THEN conjunct2, THEN conjunct2, THEN conjunct2, THEN conjunct2, THEN conjunct2, THEN conjunct1, rule_format]
  note o8 = k [THEN conjunct2, THEN conjunct2, THEN conjunct2, THEN conjunct2, THEN conjunct2, THEN conjunct2, THEN conjunct2, THEN conjunct1, rule_format]
  note o9 = k [THEN conjunct2, THEN conjunct2, THEN conjunct2, THEN conjunct2, THEN conjunct2, THEN conjunct2, THEN conjunct2, THEN conjunct2, rule_format]
  show "dispatch n env s a = Some (ra, s', tr) \<Longrightarrow> R s tr s'"
    by (rule run_relates(1) [where R = R and env = env and en = env])
      ((rule o1 o2 o3 o4 o5 o6 o7 o8 o9; assumption) | assumption | rule HOL.refl)+
  show "notify n env s ls i = Some (rn, s', tr) \<Longrightarrow> R s tr s'"
    by (rule run_relates(2) [where R = R and env = env and en = env])
      ((rule o1 o2 o3 o4 o5 o6 o7 o8 o9; assumption) | assumption | rule HOL.refl)+
  show "run n env s cmds = Some (rn, s', tr) \<Longrightarrow> R s tr s'"
    by (rule run_relates(3) [where R = R and env = env and en = env])
      ((rule o1 o2 o3 o4 o5 o6 o7 o8 o9; assumption) | assumption | rule HOL.refl)+
qed

lemma kept_byI:
  assumes "\<And>s. R s [] s"
    and "\<And>s tr s1 tr' s2. R s tr s1 \<Longrightarrow> R s1 tr' s2 \<Longrightarrow> R s (tr @ tr') s2"
    and "\<And>s a. isDispatching s \<Longrightarrow> R s [Rejected a] s"
    and "\<And>n s a body v e s1 tr.
        \<not> isDispatching s \<Longrightarrow> reducer_of env (currentReducer s) (currentState s) a = (body, v) \<Longrightarrow>
        run n env (s\<lparr>isDispatching := True\<rparr>) body = Some (Inl e, s1, tr) \<Longrightarrow>
        R (s\<lparr>isDispatching := True\<rparr>) tr s1 \<Longrightarrow> R s tr (s1\<lparr>isDispatching := False\<rparr>)"
    and "\<And>n s a body v u s1 tr.
        \<not> isDispatching s \<Longrightarrow> reducer_of env (currentReducer s) (currentState s) a = (body, v) \<Longrightarrow>
        run n env (s\<lparr>isDispatching := True\<rparr>) body = Some (Inr u, s1, tr) \<Longrightarrow>
        R (s\<lparr>isDispatching := True\<rparr>) tr s1 \<Longrightarrow>
        R s (tr @ [Transition v])
          (s1\<lparr>currentState := v, isDispatching := False, currentListeners := nextListeners s1\<rparr>)"
    and "\<And>s tr s1 l x. R s tr s1 \<Longrightarrow> R s [Invoke l (getState s) tr x] s1"
    and "\<And>s r tr s1. R (s\<lparr>currentReducer := r\<rparr>) tr s1 \<Longrightarrow> R s tr s1"
    and "\<And>s f r s1 tr. subscribe s f = (r, s1, tr) \<Longrightarrow> R s tr s1"
    and "\<And>s u r s1 tr. unsubscribe s u = (r, s1, tr) \<Longrightarrow> R s tr s1"
  shows "kept_by env R"
  unfolding kept_by_def
  by (intro conjI allI impI) (rule assms; assumption)+

lemma kept_guard: "kept_by env (\<lambda>s tr s'. isDispatching s' = isDispatching s)"
  by (rule kept_byI) (auto dest: subscribe_fields unsubscribe_fields)

lemma array_at_guard [simp]: "array_at (s\<lparr>isDispatching := b\<rparr>) a = array_at s a"
  by (simp add: array_at_def)

lemma array_at_reducer [simp]: "array_at (s\<lparr>currentReducer := r\<rparr>) a = array_at s a"
  by (simp add: array_at_def)

lemma array_at_commit [simp]:
  "array_at (s\<lparr>currentState := v, isDispatching := b, currentListeners := c\<rparr>) a = array_at s a"
  by (simp add: array_at_def)

lemma subscribe_settled:
  "subscribe s f = (r, s1, tr) \<Longrightarrow> settled A s \<Longrightarrow> settled A s1 \<and> array_at s1 A = array_at s A"
  by (auto simp: subscribe_def ensureCanMutateNextListeners_def Let_def settled_def array_at_def
      nth_append split: fnarg.splits if_splits)

lemma unsubscribe_settled:
  "unsubscribe s u = (r, s1, tr) \<Longrightarrow> settled A s \<Longrightarrow> settled A s1 \<and> array_at s1 A = array_at s A"
  by (auto simp: unsubscribe_def ensureCanMutateNextListeners_def Let_def settled_def array_at_def
      nth_append split: if_splits prod.splits)

lemma kept_settled:
  "kept_by env (\<lambda>s tr s'. settled A s \<longrightarrow> settled A s' \<and> array_at s' A = array_at s A)"
proof (rule kept_byI, goal_cases)
  case (8 s f r s1 tr)
  then show ?case using subscribe_settled by blast
next
  case (9 s u r s1 tr)
  then show ?case using unsubscribe_settled by blast
qed (auto simp: settled_def)

text \<open>The state follows the transitions among the events, and every listener reads the
  latest.\<close>

lemma kept_state:
  "kept_by env (\<lambda>s tr s'. currentState s' = final_state (currentState s) tr \<and>
                            observes (currentState s) tr)"
proof (rule kept_byI, goal_cases)
  case (8 s f r s1 tr)
  then show ?case
    by (auto simp: subscribe_def ensureCanMutateNextListeners_def Let_def split: fnarg.splits if_splits)
next
  case (9 s u r s1 tr)
  then show ?case
    by (auto simp: unsubscribe_def ensureCanMutateNextListeners_def Let_def split: if_splits prod.splits)
qed (auto simp: final_state_append observes_append getState_def)

text \<open>The address in \<open>nextListeners\<close> stays that of an array.\<close>

lemma kept_wf:
  "kept_by env (\<lambda>s tr s'. nextListeners s < length (arrays s) \<longrightarrow>
      nextListeners s' < length (arrays s'))"
proof (rule kept_byI, goal_cases)
  case (8 s f r s1 tr)
  then show ?case
    by (auto simp: subscribe_def ensureCanMutateNextListeners_def Let_def split: fnarg.splits if_splits)
next
  case (9 s u r s1 tr)
  then show ?case
    by (auto simp: unsubscribe_def ensureCanMutateNextListeners_def Let_def split: if_splits prod.splits)
qed auto

text \<open>\<open>indexOf\<close> finds the first occurrence, and \<open>splice\<close> takes it out; when there is
  none, \<open>splice(-1, 1)\<close> takes out the last element of the array.\<close>

lemma indexOf_absent: "x \<notin> set xs \<Longrightarrow> indexOf xs x = - 1"
  by (induction xs) (auto simp: Let_def)

lemma indexOf_bounds: "x \<in> set xs \<Longrightarrow> 0 \<le> indexOf xs x \<and> indexOf xs x < int (length xs)"
  by (induction xs) (auto simp: Let_def)

lemma remove_listener_present: "l \<in> set xs \<Longrightarrow> remove_listener l xs = remove1 l xs"
proof (induction xs)
  case Nil
  then show ?case by simp
next
  case (Cons y ys)
  show ?case
  proof (cases "y = l")
    case True
    then show ?thesis by (simp add: remove_listener_def splice1_def)
  next
    case False
    then have mem: "l \<in> set ys" using Cons.prems by simp
    from indexOf_bounds [OF mem] have b: "0 \<le> indexOf ys l" "indexOf ys l < int (length ys)"
      by simp_all
    have ih: "take (nat (indexOf ys l)) ys @ drop (nat (indexOf ys l) + 1) ys = remove1 l ys"
      using Cons.IH [OF mem] b by (simp add: remove_listener_def splice1_def Let_def min_def)
    have "indexOf (y # ys) l = indexOf ys l + 1" using False b by (simp add: Let_def)
    moreover have "nat (indexOf ys l + 1) = Suc (nat (indexOf ys l))" using b by simp
    ultimately show ?thesis using False b ih
      by (simp add: remove_listener_def splice1_def Let_def min_def)
  qed
qed

lemma remove_listener_absent:
  assumes "l \<notin> set xs"
  shows "remove_listener l xs = butlast xs"
proof (cases "xs = []")
  case True
  then show ?thesis by (simp add: remove_listener_def splice1_def)
next
  case False
  then have n: "nat (int (length xs) - 1) = length xs - 1" by simp
  have "max (int (length xs) + - 1) 0 = int (length xs) - 1" using False by simp
  then show ?thesis
    using assms n by (simp add: remove_listener_def splice1_def indexOf_absent Let_def butlast_conv_take)
qed

lemma count_list_remove1:
  "count_list (remove1 x xs) y = (if x = y \<and> x \<in> set xs then count_list xs y - 1 else count_list xs y)"
  by (induction xs) auto

lemma count_list_pos: "x \<in> set xs \<longleftrightarrow> 0 < count_list xs x"
  by (induction xs) auto

lemma count_active_cancel:
  "u < length subs \<Longrightarrow> subs ! u = (l, True) \<Longrightarrow>
   count_list (map fst (filter snd (subs[u := (l, False)]))) y =
     (if y = l then count_list (map fst (filter snd subs)) y - 1
      else count_list (map fst (filter snd subs)) y) \<and>
   0 < count_list (map fst (filter snd subs)) l"
proof (induction subs arbitrary: u)
  case Nil
  then show ?case by simp
next
  case (Cons q subs)
  show ?case
  proof (cases u)
    case 0
    then show ?thesis using Cons.prems by auto
  next
    case (Suc u')
    then have "u' < length subs" "subs ! u' = (l, True)" using Cons.prems by auto
    from Cons.IH [OF this] show ?thesis using Suc by (cases q) auto
  qed
qed

text \<open>The registered listeners follow the subscriptions and unsubscriptions among the
  events, and the store stays consistent.\<close>

lemma subscribed_append: "subscribed l (tr @ tr') = subscribed l tr + subscribed l tr'"
  by (induction l tr rule: subscribed.induct) auto

lemma unsubscribed_append: "unsubscribed l (tr @ tr') = unsubscribed l tr + unsubscribed l tr'"
  by (induction l tr rule: unsubscribed.induct) auto

lemmas replay_registrations = subscribed_append unsubscribed_append

lemma registered_simps [simp]:
  "registered (s\<lparr>isDispatching := b\<rparr>) = registered s"
  "registered (s\<lparr>currentReducer := rd\<rparr>) = registered s"
  "registered (s\<lparr>currentState := v, isDispatching := b, currentListeners := c\<rparr>) = registered s"
  "active (s\<lparr>isDispatching := b\<rparr>) = active s"
  "active (s\<lparr>currentReducer := rd\<rparr>) = active s"
  "active (s\<lparr>currentState := v, isDispatching := b, currentListeners := c\<rparr>) = active s"
  by (simp_all add: registered_def active_def array_at_def)

lemma consistent_simps [simp]:
  "consistent (s\<lparr>isDispatching := b\<rparr>) = consistent s"
  "consistent (s\<lparr>currentReducer := rd\<rparr>) = consistent s"
  "consistent (s\<lparr>currentState := v, isDispatching := b, currentListeners := c\<rparr>) = consistent s"
  by (simp_all add: consistent_def)

lemma ensure_registered:
  assumes "nextListeners s < length (arrays s)"
  shows "arrays (ensureCanMutateNextListeners s) ! nextListeners (ensureCanMutateNextListeners s) =
           registered s"
    and "subscriptions (ensureCanMutateNextListeners s) = subscriptions s"
    and "nextListeners (ensureCanMutateNextListeners s) < length (arrays (ensureCanMutateNextListeners s))"
  using assms
  by (auto simp: ensureCanMutateNextListeners_def registered_def array_at_def nth_append)

lemma subscribe_replay:
  assumes "subscribe s f = (r, s1, tr)" and "consistent s"
  shows "consistent s1 \<and> registered s1 = replay tr (registered s) \<and>
         (\<forall>l. count_list (registered s1) l + unsubscribed l tr =
               count_list (registered s) l + subscribed l tr)"
proof (cases f)
  case (NotFn v)
  then show ?thesis using assms by (simp add: subscribe_def)
next
  case (Fn k)
  let ?e = "ensureCanMutateNextListeners s"
  have wf: "nextListeners s < length (arrays s)" using assms(2) by (simp add: consistent_def)
  note e = ensure_registered [OF wf]
  have s1: "s1 = ?e\<lparr>arrays := (arrays ?e)[nextListeners ?e := array_at ?e (nextListeners ?e) @ [k]],
                     subscriptions := subscriptions ?e @ [(k, True)]\<rparr>"
    and tr: "tr = [Subscribed k]"
    using assms(1) Fn by (simp_all add: subscribe_def Let_def)
  have wf1: "nextListeners s1 < length (arrays s1)" using e(3) by (simp add: s1)
  have "registered s1 = arrays ?e ! nextListeners ?e @ [k]"
    using e(3) by (simp add: s1 registered_def array_at_def)
  then have reg: "registered s1 = registered s @ [k]" by (simp only: e(1))
  have act: "active s1 = active s @ [k]"
    by (simp add: s1 active_def e(2))
  show ?thesis
    using assms(2) wf1 by (simp add: consistent_def reg act tr)
qed

lemma unsubscribe_replay:
  assumes "unsubscribe s u = (r, s1, tr)" and "consistent s"
  shows "consistent s1 \<and> registered s1 = replay tr (registered s) \<and>
         (\<forall>l. count_list (registered s1) l + unsubscribed l tr =
               count_list (registered s) l + subscribed l tr)"
proof (cases "u < length (subscriptions s) \<and> snd (subscriptions s ! u)")
  case False
  then have "s1 = s" "tr = []"
    using assms(1) by (auto simp: unsubscribe_def split: if_splits prod.splits)
  then show ?thesis using assms(2) by simp
next
  case True
  obtain k where k: "subscriptions s ! u = (k, True)"
    using True by (cases "subscriptions s ! u") auto
  let ?c = "s\<lparr>subscriptions := (subscriptions s)[u := (k, False)]\<rparr>"
  let ?e = "ensureCanMutateNextListeners ?c"
  have wf: "nextListeners ?c < length (arrays ?c)" using assms(2) by (simp add: consistent_def)
  note e = ensure_registered [OF wf]
  have s1: "s1 = ?e\<lparr>arrays := (arrays ?e)[nextListeners ?e :=
                       remove_listener k (array_at ?e (nextListeners ?e))]\<rparr>"
    and tr: "tr = [Unsubscribed k]"
    using assms(1) True k by (simp_all add: unsubscribe_def Let_def)
  have regc: "registered ?c = registered s" by (simp add: registered_def array_at_def)
  have u: "u < length (subscriptions s)" using True by simp
  have pos: "0 < count_list (active s) k"
    using count_active_cancel [OF u k] by (simp add: active_def)
  then have mem: "k \<in> set (registered s)"
    using assms(2) by (simp add: consistent_def count_list_pos)
  have wf1: "nextListeners s1 < length (arrays s1)" using e(3) by (simp add: s1)
  have "registered s1 = remove_listener k (arrays ?e ! nextListeners ?e)"
    using e(3) by (simp add: s1 registered_def array_at_def)
  then have "registered s1 = remove_listener k (registered s)" by (simp only: e(1) regc)
  then have reg: "registered s1 = remove1 k (registered s)"
    using mem by (simp add: remove_listener_present)
  have "subscriptions s1 = (subscriptions s)[u := (k, False)]"
    by (simp add: s1 e(2))
  then have act: "\<And>y. count_list (active s1) y =
      (if y = k then count_list (active s) y - 1 else count_list (active s) y)"
    using count_active_cancel [OF u k] by (simp add: active_def)
  have cons: "consistent s1"
    using assms(2) wf1 mem by (auto simp: consistent_def reg act count_list_remove1)
  have cnt: "\<forall>l. count_list (registered s1) l + unsubscribed l tr =
               count_list (registered s) l + subscribed l tr"
    using mem by (auto simp: reg tr count_list_remove1 count_list_pos)
  show ?thesis using cons cnt by (simp add: reg tr)
qed

lemma kept_replay:
  "kept_by env (\<lambda>s tr s'. consistent s \<longrightarrow>
      consistent s' \<and> registered s' = replay tr (registered s) \<and>
      (\<forall>l. count_list (registered s') l + unsubscribed l tr =
            count_list (registered s) l + subscribed l tr))"
proof (rule kept_byI, goal_cases)
  case (2 s tr s1 tr' s2)
  show ?case
  proof
    assume c: "consistent s"
    with 2(1) have 1: "consistent s1" "registered s1 = replay tr (registered s)"
      "\<forall>l. count_list (registered s1) l + unsubscribed l tr =
            count_list (registered s) l + subscribed l tr"
      by blast+
    with 2(2) have 3: "consistent s2" "registered s2 = replay tr' (registered s1)"
      "\<forall>l. count_list (registered s2) l + unsubscribed l tr' =
            count_list (registered s1) l + subscribed l tr'"
      by blast+
    have "count_list (registered s2) l + unsubscribed l (tr @ tr') =
          count_list (registered s) l + subscribed l (tr @ tr')" for l
      using 1(3) [rule_format, of l] 3(3) [rule_format, of l]
      by (simp add: replay_registrations)
    then show "consistent s2 \<and> registered s2 = replay (tr @ tr') (registered s) \<and>
      (\<forall>l. count_list (registered s2) l + unsubscribed l (tr @ tr') =
            count_list (registered s) l + subscribed l (tr @ tr'))"
      using 1 3 by (simp add: replay_append)
  qed
next
  case (5 n s a body v u s1 tr)
  then show ?case by (auto simp: replay_append replay_registrations)
next
  case (8 s f r s1 tr)
  then show ?case using subscribe_replay by blast
next
  case (9 s u r s1 tr)
  then show ?case using unsubscribe_replay by blast
next
  case (4 n s a body v e s1 tr)
  then show ?case by auto
next
  case (6 s tr s1 l x)
  then show ?case by auto
next
  case (7 s r tr s1)
  then show ?case by auto
qed simp_all

text \<open>Code that does not dispatch meets no rejection.\<close>

lemma run_quiet:
  "\<forall>c \<in> set cmds. \<not> dispatches c \<Longrightarrow> run n env s cmds = Some (r, s', tr) \<Longrightarrow> no_rejected tr"
proof (induction cmds arbitrary: s r s' tr)
  case Nil
  then show ?case by simp
next
  case (Cons c cmds)
  show ?case
  proof (cases c)
    case (Subscribe f)
    then show ?thesis using Cons
      by (auto simp: subscribe_def Let_def no_rejected_append split: fnarg.splits option.splits)
  next
    case (Unsubscribe u)
    then show ?thesis using Cons
      by (auto simp: unsubscribe_def Let_def no_rejected_append
          split: if_splits prod.splits option.splits)
  qed (use Cons in auto)
qed

lemma kept_accepted:
  assumes "\<forall>r st a. \<forall>c \<in> set (fst (reducer_of env r st a)). \<not> dispatches c"
  shows "kept_by env (\<lambda>s tr s'. \<not> isDispatching s \<longrightarrow> \<not> isDispatching s' \<and> no_rejected tr)"
proof (rule kept_byI, goal_cases)
  case (4 n s a body v e s1 tr)
  have "\<forall>c \<in> set body. \<not> dispatches c"
    using assms 4(2) by (metis fst_conv)
  then show ?case using run_quiet 4(3) by force
next
  case (5 n s a body v u s1 tr)
  have "\<forall>c \<in> set body. \<not> dispatches c"
    using assms 5(2) by (metis fst_conv)
  then have "no_rejected tr" using run_quiet 5(3) by blast
  then show ?case by (simp add: no_rejected_append)
next
  case (8 s f r s1 tr)
  then show ?case
    by (auto simp: subscribe_def ensureCanMutateNextListeners_def Let_def split: fnarg.splits if_splits)
next
  case (9 s u r s1 tr)
  then show ?case
    by (auto simp: unsubscribe_def ensureCanMutateNextListeners_def Let_def split: if_splits prod.splits)
qed (auto simp: no_rejected_append)

lemmas guard_restored = run_kept [OF kept_guard]
lemmas settled_kept = run_kept [OF kept_settled]
lemmas state_followed = run_kept [OF kept_state]
lemmas listeners_replayed = run_kept [OF kept_replay]
lemmas address_kept = run_kept [OF kept_wf]

text \<open>While the guard is set, \<open>dispatch\<close> does nothing but throw.\<close>

lemma dispatch_guarded:
  "isDispatching s \<Longrightarrow> dispatch n env s a = Some (r, s', tr) \<Longrightarrow>
   s' = s \<and> (\<exists>e. r = Inl e) \<and> top_invocations tr = [] \<and> final_state cur tr = cur"
  by (cases n) (auto split: if_splits)

lemma run_guarded:
  "isDispatching s \<Longrightarrow> run n env s cmds = Some (r, s', tr) \<Longrightarrow>
   isDispatching s' \<and> currentState s' = currentState s \<and>
   top_invocations tr = [] \<and> final_state cur tr = cur"
proof (induction cmds arbitrary: s r s' tr)
  case Nil
  then show ?case by simp
next
  case (Cons c cmds)
  show ?case
  proof (cases c)
    case (Dispatch a)
    from Cons.prems Dispatch obtain r1 s1 tr1 where d: "dispatch n env s a = Some (r1, s1, tr1)"
      by (auto split: option.splits)
    from dispatch_guarded [OF Cons.prems(1) d, of cur] Cons.prems d Dispatch
    show ?thesis by auto
  next
    case (Subscribe f)
    obtain r1 s1 tr1 where sub: "subscribe s f = (r1, s1, tr1)" by (cases "subscribe s f")
    have f: "isDispatching s1" "currentState s1 = currentState s"
      using subscribe_fields [OF sub] Cons.prems(1) by auto
    have t: "top_invocations tr1 = []" "final_state cur tr1 = cur"
      using sub by (auto simp: subscribe_def Let_def split: fnarg.splits)
    show ?thesis
    proof (cases r1)
      case (Inl e)
      then show ?thesis using Cons.prems Subscribe sub f t by auto
    next
      case (Inr h)
      from Cons.prems Subscribe sub Inr obtain tr2 where
        r2: "run n env s1 cmds = Some (r, s', tr2)" and tr: "tr = tr1 @ tr2"
        by (auto split: option.splits)
      from Cons.IH [OF f(1) r2] f t show ?thesis
        by (simp add: tr top_invocations_append final_state_append)
    qed
  next
    case (Unsubscribe u)
    obtain r1 s1 tr1 where sub: "unsubscribe s u = (r1, s1, tr1)" by (cases "unsubscribe s u")
    have f: "isDispatching s1" "currentState s1 = currentState s"
      using unsubscribe_fields [OF sub] Cons.prems(1) by auto
    have t: "top_invocations tr1 = []" "final_state cur tr1 = cur"
      using sub by (auto simp: unsubscribe_def Let_def split: if_splits prod.splits)
    show ?thesis
    proof (cases r1)
      case (Inl e)
      then show ?thesis using Cons.prems Unsubscribe sub f t by auto
    next
      case (Inr h)
      from Cons.prems Unsubscribe sub Inr obtain tr2 where
        r2: "run n env s1 cmds = Some (r, s', tr2)" and tr: "tr = tr1 @ tr2"
        by (auto split: option.splits)
      from Cons.IH [OF f(1) r2] f t show ?thesis
        by (simp add: tr top_invocations_append final_state_append)
    qed
  next
    case (ReplaceReducer f)
    show ?thesis
    proof (cases f)
      case (NotFn v)
      then show ?thesis using Cons.prems ReplaceReducer by auto
    next
      case (Fn rd)
      from Cons.prems ReplaceReducer Fn obtain r1 s1 tr1 where
        d: "dispatch n env (s\<lparr>currentReducer := rd\<rparr>) INIT_action = Some (r1, s1, tr1)"
        by (auto split: option.splits)
      have g: "isDispatching (s\<lparr>currentReducer := rd\<rparr>)" using Cons.prems(1) by simp
      from dispatch_guarded [OF g d, of cur] Cons.prems d ReplaceReducer Fn
      show ?thesis by auto
    qed
  next
    case (Throw e)
    then show ?thesis using Cons.prems by auto
  qed
qed

text \<open>A reducer that returns, and did not touch the listeners, did nothing to the store.\<close>

lemma run_guarded_returns:
  assumes "isDispatching s" and "\<forall>c \<in> set cmds. \<not> registers c"
    and "run n env s cmds = Some (Inr u, s', tr)"
  shows "cmds = []"
proof (cases cmds)
  case Nil
  then show ?thesis .
next
  case (Cons c rest)
  have False
  proof (cases c)
    case (Dispatch a)
    from assms(3) Cons Dispatch obtain r1 s1 tr1 where d: "dispatch n env s a = Some (r1, s1, tr1)"
      by (auto split: option.splits)
    from dispatch_guarded [OF assms(1) d, where cur = JNull] assms(3) Cons Dispatch d show False by auto
  next
    case (ReplaceReducer f)
    show False
    proof (cases f)
      case (NotFn v)
      then show False using assms(3) Cons ReplaceReducer by auto
    next
      case (Fn rd)
      from assms(3) Cons ReplaceReducer Fn obtain r1 s1 tr1 where
        d: "dispatch n env (s\<lparr>currentReducer := rd\<rparr>) INIT_action = Some (r1, s1, tr1)"
        by (auto split: option.splits)
      have g: "isDispatching (s\<lparr>currentReducer := rd\<rparr>)" using assms(1) by simp
      from dispatch_guarded [OF g d, where cur = JNull] assms(3) Cons ReplaceReducer Fn d show False by auto
    qed
  qed (use assms Cons in auto)
  then show ?thesis ..
qed

text \<open>A reducer that returns has done nothing but subscribe and unsubscribe.\<close>

lemma run_guarded_registers:
  "isDispatching s \<Longrightarrow> run n env s cmds = Some (Inr u, s', tr) \<Longrightarrow>
   (\<forall>e \<in> set tr. is_registration e) \<and> (\<forall>c \<in> set cmds. registers c)"
proof (induction cmds arbitrary: s tr)
  case Nil
  then show ?case by simp
next
  case (Cons c cmds)
  show ?case
  proof (cases c)
    case (Dispatch a)
    from Cons.prems Dispatch obtain r1 s1 tr1 where d: "dispatch n env s a = Some (r1, s1, tr1)"
      by (auto split: option.splits)
    from dispatch_guarded [OF Cons.prems(1) d, where cur = JNull] Cons.prems Dispatch d
    show ?thesis by auto
  next
    case (ReplaceReducer f)
    show ?thesis
    proof (cases f)
      case (NotFn v)
      then show ?thesis using Cons.prems ReplaceReducer by auto
    next
      case (Fn rd)
      from Cons.prems ReplaceReducer Fn obtain r1 s1 tr1 where
        d: "dispatch n env (s\<lparr>currentReducer := rd\<rparr>) INIT_action = Some (r1, s1, tr1)"
        by (auto split: option.splits)
      have g: "isDispatching (s\<lparr>currentReducer := rd\<rparr>)" using Cons.prems(1) by simp
      from dispatch_guarded [OF g d, where cur = JNull] Cons.prems ReplaceReducer Fn d
      show ?thesis by auto
    qed
  next
    case (Subscribe f)
    obtain r1 s1 tr1 where sub: "subscribe s f = (r1, s1, tr1)" by (cases "subscribe s f")
    have g: "isDispatching s1" using subscribe_fields [OF sub] Cons.prems(1) by simp
    have t1: "\<forall>e \<in> set tr1. is_registration e"
      using sub by (auto simp: subscribe_def Let_def split: fnarg.splits)
    from Cons.prems Subscribe sub obtain tr2 where
      r2: "run n env s1 cmds = Some (Inr u, s', tr2)" and tr: "tr = tr1 @ tr2"
      by (cases r1) (auto split: option.splits)
    from Cons.IH [OF g r2] t1 show ?thesis by (auto simp: tr Subscribe)
  next
    case (Unsubscribe h)
    obtain r1 s1 tr1 where sub: "unsubscribe s h = (r1, s1, tr1)" by (cases "unsubscribe s h")
    have g: "isDispatching s1" using unsubscribe_fields [OF sub] Cons.prems(1) by simp
    have t1: "\<forall>e \<in> set tr1. is_registration e"
      using sub by (auto simp: unsubscribe_def Let_def split: if_splits prod.splits)
    from Cons.prems Unsubscribe sub obtain tr2 where
      r2: "run n env s1 cmds = Some (Inr u, s', tr2)" and tr: "tr = tr1 @ tr2"
      by (cases r1) (auto split: option.splits)
    from Cons.IH [OF g r2] t1 show ?thesis by (auto simp: tr Unsubscribe)
  next
    case (Throw e)
    then show ?thesis using Cons.prems by simp
  qed
qed

text \<open>The store that \<open>createStore\<close> returns is consistent.\<close>

lemma createStore_consistent:
  assumes "createStore n env reducer preloadedState = Some (Inr s, tr)"
  shows "consistent s"
proof -
  from assms obtain rd a where
    d: "dispatch n env
          \<lparr>currentReducer = rd, currentState = preloadedState, currentListeners = 0,
           nextListeners = 0, isDispatching = False, arrays = [[]], subscriptions = []\<rparr>
          INIT_action = Some (Inr a, s, tr)"
    by (auto simp: createStore_def split: fnarg.splits option.splits sum.splits)
  have "consistent \<lparr>currentReducer = rd, currentState = preloadedState, currentListeners = 0,
           nextListeners = 0, isDispatching = False, arrays = [[]], subscriptions = []\<rparr>"
    by (simp add: consistent_def registered_def active_def array_at_def)
  with listeners_replayed(1) [OF d] show ?thesis by simp
qed

lemma escaped_none: "top_invocations tr = [] \<Longrightarrow> e \<in> set tr \<Longrightarrow> escaped e = None"
  by (induction tr rule: top_invocations.induct) auto

text \<open>The loop calls the listeners of its array from index \<open>i\<close> on, one after the other, and
  stops at the first that throws.\<close>

lemma notify_pass:
  assumes "settled A s" and "notify n env s A i = Some (r, s', tr)"
  shows "top_invocations tr = take (length tr) (drop i (array_at s A)) \<and>
         (\<forall>e \<in> set tr. is_Invoke e) \<and>
         (case r of
            Inr u \<Rightarrow> length tr = length (array_at s A) - i \<and> (\<forall>e \<in> set tr. escaped e = None)
          | Inl x \<Rightarrow> tr \<noteq> [] \<and> escaped (last tr) = Some x \<and>
                     (\<forall>e \<in> set (butlast tr). escaped e = None))"
  using assms
proof (induction n arbitrary: s i r s' tr)
  case 0
  then show ?case by (auto split: if_splits)
next
  case (Suc n)
  show ?case
  proof (cases "i < length (array_at s A)")
    case False
    then show ?thesis using Suc.prems by auto
  next
    case True
    let ?l = "array_at s A ! i"
    have dr: "drop i (array_at s A) = ?l # drop (Suc i) (array_at s A)"
      using True by (simp add: Cons_nth_drop_Suc)
    from Suc.prems True obtain r1 s1 tr1 where
      r1: "run n env s (listener_of env ?l (getState s)) = Some (r1, s1, tr1)"
      by (auto simp: Let_def split: option.splits)
    show ?thesis
    proof (cases r1)
      case (Inl e)
      then have "r = Inl e" "tr = [Invoke ?l (getState s) tr1 (Some e)]"
        using Suc.prems True r1 by (auto simp: Let_def)
      then show ?thesis by (simp add: dr)
    next
      case (Inr u)
      from Suc.prems True r1 Inr obtain tr2 where
        n2: "notify n env s1 A (i + 1) = Some (r, s', tr2)"
        and tr: "tr = Invoke ?l (getState s) tr1 None # tr2"
        by (auto simp: Let_def split: option.splits)
      have s1: "settled A s1" and a1: "array_at s1 A = array_at s A"
        using settled_kept(3) [OF r1] Suc.prems(1) by auto
      from Suc.IH [OF s1 n2] have ih:
        "top_invocations tr2 = take (length tr2) (drop (Suc i) (array_at s A))"
        "\<forall>e \<in> set tr2. is_Invoke e"
        "case r of
            Inr u \<Rightarrow> length tr2 = length (array_at s A) - Suc i \<and> (\<forall>e \<in> set tr2. escaped e = None)
          | Inl x \<Rightarrow> tr2 \<noteq> [] \<and> escaped (last tr2) = Some x \<and>
                     (\<forall>e \<in> set (butlast tr2). escaped e = None)"
        by (simp_all add: a1 cong: sum.case_cong)
      show ?thesis
      proof (cases r)
        case (Inl x)
        then show ?thesis using ih by (simp add: tr dr)
      next
        case (Inr y)
        then show ?thesis using ih True by (auto simp: tr dr)
      qed
    qed
  qed
qed

lemma dispatch_Some:
  assumes "dispatch n env s action = Some (r, s', tr)"
    and "isPlainObject action" "get_type action \<noteq> JUndefined" "\<not> isDispatching s"
    and "reducer_of env (currentReducer s) (currentState s) action = (body, v)"
  shows "\<exists>m r1 s1 tr1. n = Suc m \<and>
           run m env (s\<lparr>isDispatching := True\<rparr>) body = Some (r1, s1, tr1) \<and>
           ((\<exists>e. r1 = Inl e \<and> r = Inl e \<and> s' = s1\<lparr>isDispatching := False\<rparr> \<and> tr = tr1) \<or>
            (r1 = Inr () \<and>
             (\<exists>r2 pass.
                notify m env
                  (s1\<lparr>currentState := v, isDispatching := False, currentListeners := nextListeners s1\<rparr>)
                  (nextListeners s1) 0 = Some (r2, s', pass) \<and>
                tr = tr1 @ Transition v # pass \<and>
                r = (case r2 of Inl e \<Rightarrow> Inl e | Inr u \<Rightarrow> Inr action))))"
proof (cases n)
  case 0
  then show ?thesis using assms by simp
next
  case (Suc m)
  from assms Suc obtain r1 s1 tr1 where
    r1: "run m env (s\<lparr>isDispatching := True\<rparr>) body = Some (r1, s1, tr1)"
    by (auto split: option.splits)
  show ?thesis
  proof (cases r1)
    case (Inl e)
    then show ?thesis using assms Suc r1 by auto
  next
    case (Inr u)
    let ?s3 = "s1\<lparr>currentState := v, isDispatching := False, currentListeners := nextListeners s1\<rparr>"
    from assms Suc r1 Inr obtain r2 s2 pass where
      n2: "notify m env ?s3 (nextListeners s1) 0 = Some (r2, s2, pass)"
      by (auto simp: Let_def split: option.splits)
    have "s2 = s' \<and> tr = tr1 @ Transition v # pass \<and>
          r = (case r2 of Inl e \<Rightarrow> Inl e | Inr u \<Rightarrow> Inr action)"
      using assms Suc r1 Inr n2 by (cases r2) (auto simp: Let_def)
    then show ?thesis using Suc r1 Inr n2 by auto
  qed
qed

lemma dispatch_invalid:
  assumes "dispatch n env s action = Some (r, s', tr)"
    and "\<not> (isPlainObject action \<and> get_type action \<noteq> JUndefined \<and> \<not> isDispatching s)"
  shows "(\<exists>e. r = Inl e) \<and> s' = s \<and> (tr = [] \<or> tr = [Rejected action])"
  using assms by (cases n) (auto split: if_splits)




text \<open>
  Claim C1. \<open>dispatch\<close> of a valid action on an idle store sets \<open>isDispatching\<close> for the
  call of the reducer and for nothing else. Whatever the reducer does while it runs, the guard
  is still set and the state is the one from before the dispatch when it ends, and no listener
  was called. If the reducer throws, \<open>dispatch\<close> throws the same exception with the guard
  released and the state unchanged. If it returns, the state becomes its result with the guard
  released, and only then are the listeners notified: they all read a state that follows the
  transitions, starting with the reducer's result.
\<close>

theorem dispatch_guard_scope:
  assumes "\<not> isDispatching s" and "isPlainObject action" and "get_type action \<noteq> JUndefined"
    and "reducer_of env (currentReducer s) (currentState s) action = (body, v)"
    and "run n env (s\<lparr>isDispatching := True\<rparr>) body = Some (r1, s1, tr1)"
  shows "isDispatching s1 \<and> currentState s1 = currentState s \<and> top_invocations tr1 = [] \<and>
     (case r1 of
        Inl e \<Rightarrow> dispatch (Suc n) env s action = Some (Inl e, s1\<lparr>isDispatching := False\<rparr>, tr1)
      | Inr u \<Rightarrow>
          (case notify n env
                  (s1\<lparr>currentState := v, isDispatching := False,
                      currentListeners := nextListeners s1\<rparr>)
                  (nextListeners s1) 0 of
             None \<Rightarrow> dispatch (Suc n) env s action = None
           | Some (r2, s', pass) \<Rightarrow>
               dispatch (Suc n) env s action =
                 Some (case r2 of Inl e \<Rightarrow> Inl e | Inr u \<Rightarrow> Inr action, s',
                       tr1 @ Transition v # pass) \<and>
               \<not> isDispatching s' \<and> observes v pass \<and> currentState s' = final_state v pass))"
proof -
  have g: "isDispatching s1 \<and> currentState s1 = currentState s \<and> top_invocations tr1 = []"
    using run_guarded [OF _ assms(5), of JNull] by simp
  let ?s3 = "s1\<lparr>currentState := v, isDispatching := False, currentListeners := nextListeners s1\<rparr>"
  have rest: "case r1 of
        Inl e \<Rightarrow> dispatch (Suc n) env s action = Some (Inl e, s1\<lparr>isDispatching := False\<rparr>, tr1)
      | Inr u \<Rightarrow>
          (case notify n env ?s3 (nextListeners s1) 0 of
             None \<Rightarrow> dispatch (Suc n) env s action = None
           | Some (r2, s', pass) \<Rightarrow>
               dispatch (Suc n) env s action =
                 Some (case r2 of Inl e \<Rightarrow> Inl e | Inr u \<Rightarrow> Inr action, s',
                       tr1 @ Transition v # pass) \<and>
               \<not> isDispatching s' \<and> observes v pass \<and> currentState s' = final_state v pass)"
  proof (cases r1)
    case (Inl e)
    then show ?thesis using assms by simp
  next
    case (Inr u)
    show ?thesis
    proof (cases "notify n env ?s3 (nextListeners s1) 0")
      case None
      then show ?thesis using assms Inr by (simp add: Let_def)
    next
      case (Some res)
      obtain r2 s' pass where res: "res = (r2, s', pass)" by (cases res)
      note n2 = Some [unfolded res]
      have d: "dispatch (Suc n) env s action =
          Some (case r2 of Inl e \<Rightarrow> Inl e | Inr u \<Rightarrow> Inr action, s', tr1 @ Transition v # pass)"
        using assms Inr n2 by (cases r2) (simp_all add: Let_def)
      have "\<not> isDispatching s'" using guard_restored(2) [OF n2] by simp
      moreover have "observes v pass \<and> currentState s' = final_state v pass"
        using state_followed(2) [OF n2] by simp
      ultimately show ?thesis using Inr n2 d by simp
    qed
  qed
  from g rest show ?thesis by blast
qed

lemma run_append_ok:
  "run n env s xs = Some (Inr u, s1, tr1) \<Longrightarrow>
   run n env s (xs @ ys) =
     (case run n env s1 ys of None \<Rightarrow> None | Some (r, s2, tr') \<Rightarrow> Some (r, s2, tr1 @ tr'))"
proof (induction xs arbitrary: s tr1)
  case Nil
  then show ?case by (auto split: option.splits)
next
  case (Cons c xs)
  show ?case
  proof (cases c)
    case (Dispatch a)
    from Cons.prems Dispatch obtain a' s0 tr0 tr2 where
      d: "dispatch n env s a = Some (Inr a', s0, tr0)"
      and r: "run n env s0 xs = Some (Inr u, s1, tr2)" and tr: "tr1 = tr0 @ tr2"
      by (auto split: option.splits sum.splits)
    from Cons.IH [OF r] show ?thesis
      by (auto simp: Dispatch d tr split: option.splits)
  next
    case (Subscribe f)
    from Cons.prems Subscribe obtain h s0 tr0 tr2 where
      d: "subscribe s f = (Inr h, s0, tr0)"
      and r: "run n env s0 xs = Some (Inr u, s1, tr2)" and tr: "tr1 = tr0 @ tr2"
      by (auto split: option.splits sum.splits prod.splits)
    from Cons.IH [OF r] show ?thesis
      by (auto simp: Subscribe d tr split: option.splits)
  next
    case (Unsubscribe h)
    from Cons.prems Unsubscribe obtain s0 tr0 tr2 where
      d: "unsubscribe s h = (Inr (), s0, tr0)"
      and r: "run n env s0 xs = Some (Inr u, s1, tr2)" and tr: "tr1 = tr0 @ tr2"
      by (auto split: option.splits sum.splits prod.splits)
    from Cons.IH [OF r] show ?thesis
      by (auto simp: Unsubscribe d tr split: option.splits)
  next
    case (ReplaceReducer f)
    from Cons.prems ReplaceReducer obtain rd a' s0 tr0 tr2 where
      f: "f = Fn rd"
      and d: "dispatch n env (s\<lparr>currentReducer := rd\<rparr>) INIT_action = Some (Inr a', s0, tr0)"
      and r: "run n env s0 xs = Some (Inr u, s1, tr2)" and tr: "tr1 = tr0 @ tr2"
      by (auto split: option.splits sum.splits fnarg.splits)
    from Cons.IH [OF r] show ?thesis
      by (auto simp: ReplaceReducer f d tr split: option.splits)
  next
    case (Throw e)
    then show ?thesis using Cons.prems by simp
  qed
qed

text \<open>
  Claim C3. A \<open>dispatch\<close> of a valid action while \<open>isDispatching\<close> is set throws
  ``Reducers may not dispatch actions.'' and leaves the store as it is. A reducer that
  dispatches makes the enclosing \<open>dispatch\<close> throw that error, with the state unchanged and
  the guard released. When no reducer dispatches, no \<open>dispatch\<close> of the call is rejected for
  the guard, at any depth: neither the outer one nor those issued by listeners during the
  notification, and the guard is released at the end.
\<close>

theorem reentrant_dispatch_rejected:
  "(isDispatching s \<longrightarrow> isPlainObject a \<longrightarrow> get_type a \<noteq> JUndefined \<longrightarrow>
      dispatch (Suc n) env s a =
        Some (Inl (Error ''Reducers may not dispatch actions.''), s, [Rejected a])) \<and>
   (\<not> isDispatching s \<longrightarrow> isPlainObject action \<longrightarrow> get_type action \<noteq> JUndefined \<longrightarrow>
    isPlainObject a \<longrightarrow> get_type a \<noteq> JUndefined \<longrightarrow>
    reducer_of env (currentReducer s) (currentState s) action = (before @ Dispatch a # after, v) \<longrightarrow>
    run (Suc n) env (s\<lparr>isDispatching := True\<rparr>) before = Some (Inr u, s1, tr1) \<longrightarrow>
      dispatch (Suc (Suc n)) env s action =
        Some (Inl (Error ''Reducers may not dispatch actions.''), s1\<lparr>isDispatching := False\<rparr>,
              tr1 @ [Rejected a]) \<and>
      currentState s1 = currentState s) \<and>
   ((\<forall>rd st b. \<forall>c \<in> set (fst (reducer_of env rd st b)). \<not> dispatches c) \<longrightarrow>
    \<not> isDispatching s \<longrightarrow> dispatch m env s action = Some (r, s', tr) \<longrightarrow>
      no_rejected tr \<and> \<not> isDispatching s')"
proof (intro conjI impI)
  assume "isDispatching s" "isPlainObject a" "get_type a \<noteq> JUndefined"
  then show "dispatch (Suc n) env s a =
        Some (Inl (Error ''Reducers may not dispatch actions.''), s, [Rejected a])"
    by simp
next
  assume idle: "\<not> isDispatching s"
    and valid: "isPlainObject action" "get_type action \<noteq> JUndefined"
    and valid': "isPlainObject a" "get_type a \<noteq> JUndefined"
    and red: "reducer_of env (currentReducer s) (currentState s) action = (before @ Dispatch a # after, v)"
    and pre: "run (Suc n) env (s\<lparr>isDispatching := True\<rparr>) before = Some (Inr u, s1, tr1)"
  have g: "isDispatching s1" "currentState s1 = currentState s"
    using run_guarded [OF _ pre, of JNull] by simp_all
  have inner: "dispatch (Suc n) env s1 a =
      Some (Inl (Error ''Reducers may not dispatch actions.''), s1, [Rejected a])"
    using g(1) valid' by simp
  have "run (Suc n) env (s\<lparr>isDispatching := True\<rparr>) (before @ Dispatch a # after) =
      Some (Inl (Error ''Reducers may not dispatch actions.''), s1, tr1 @ [Rejected a])"
    unfolding run_append_ok [OF pre] using inner by simp
  then show "dispatch (Suc (Suc n)) env s action =
        Some (Inl (Error ''Reducers may not dispatch actions.''), s1\<lparr>isDispatching := False\<rparr>,
              tr1 @ [Rejected a])"
    using idle valid red by simp
  show "currentState s1 = currentState s" by (rule g(2))
next
  assume pure: "\<forall>rd st b. \<forall>c \<in> set (fst (reducer_of env rd st b)). \<not> dispatches c"
    and idle: "\<not> isDispatching s" and d: "dispatch m env s action = Some (r, s', tr)"
  from run_kept(1) [OF kept_accepted [OF pure] d] idle
  show "no_rejected tr" and "\<not> isDispatching s'" by simp_all
qed

subsection \<open>Fuel\<close>

text \<open>A call that returns with some fuel returns the same with more.\<close>

lemma fuel_mono:
  "dispatch n env s a = Some x \<Longrightarrow> dispatch (n + k) env s a = Some x"
  "notify n env s ls i = Some y \<Longrightarrow> notify (n + k) env s ls i = Some y"
  "run n env s cmds = Some y \<Longrightarrow> run (n + k) env s cmds = Some y"
proof (induction n env s a and n env s ls i and n env s cmds
       arbitrary: x and y and y rule: dispatch_notify_run.induct)
  case (1 env s action)
  then show ?case by simp
next
  case (2 n env s action)
  then show ?case
    by (auto simp: Let_def split: if_splits prod.splits option.splits sum.splits)
next
  case (3 env s listeners i)
  then show ?case by (cases k) (auto split: if_splits)
next
  case (4 n env s listeners i)
  show ?case
  proof (cases "i < length (array_at s listeners)")
    case False
    then show ?thesis using "4.prems" by simp
  next
    case True
    let ?l = "array_at s listeners ! i"
    from "4.prems" True obtain r1 s1 tr1 where
      r1: "run n env s (listener_of env ?l (getState s)) = Some (r1, s1, tr1)"
      by (auto simp: Let_def split: option.splits)
    have r1': "run (n + k) env s (listener_of env ?l (getState s)) = Some (r1, s1, tr1)"
      using "4.IH"(1) [OF True HOL.refl HOL.refl r1] .
    show ?thesis
    proof (cases r1)
      case (Inl e)
      then show ?thesis using "4.prems" True r1 r1' by (simp add: Let_def)
    next
      case (Inr u)
      from "4.prems" True r1 Inr obtain z where
        n2: "notify n env s1 listeners (i + 1) = Some z"
        by (auto simp: Let_def split: option.splits)
      have n2': "notify (n + k) env s1 listeners (i + 1) = Some z"
        using "4.IH"(2) [OF True HOL.refl HOL.refl r1 HOL.refl Inr HOL.refl n2] .
      show ?thesis using "4.prems" True r1 r1' Inr n2 n2' by (simp add: Let_def)
    qed
  qed
next
  case (5 n env s)
  then show ?case by simp
next
  case (6 n env s action rest)
  from "6.prems" obtain r1 s1 tr1 where
    d: "dispatch n env s action = Some (r1, s1, tr1)"
    by (auto split: option.splits)
  have d': "dispatch (n + k) env s action = Some (r1, s1, tr1)" using "6.IH"(1) [OF d] .
  show ?case
  proof (cases r1)
    case (Inl e)
    then show ?thesis using "6.prems" d d' by simp
  next
    case (Inr a)
    from "6.prems" d Inr obtain z where r2: "run n env s1 rest = Some z"
      by (auto split: option.splits)
    have "run (n + k) env s1 rest = Some z" using "6.IH"(2) [OF d HOL.refl Inr HOL.refl r2] .
    then show ?thesis using "6.prems" d d' Inr r2 by simp
  qed
next
  case (7 n env s nextReducer rest)
  show ?case
  proof (cases nextReducer)
    case (NotFn v)
    then show ?thesis using "7.prems" by simp
  next
    case (Fn r)
    from "7.prems" Fn obtain r1 s1 tr1 where
      d: "dispatch n env (s\<lparr>currentReducer := r\<rparr>) INIT_action = Some (r1, s1, tr1)"
      by (auto split: option.splits)
    have d': "dispatch (n + k) env (s\<lparr>currentReducer := r\<rparr>) INIT_action = Some (r1, s1, tr1)"
      using "7.IH"(1) [OF Fn d] .
    show ?thesis
    proof (cases r1)
      case (Inl e)
      then show ?thesis using "7.prems" Fn d d' by simp
    next
      case (Inr a)
      from "7.prems" Fn d Inr obtain z where r2: "run n env s1 rest = Some z"
        by (auto split: option.splits)
      have "run (n + k) env s1 rest = Some z"
        using "7.IH"(2) [OF Fn d HOL.refl Inr HOL.refl r2] .
      then show ?thesis using "7.prems" Fn d d' Inr r2 by simp
    qed
  qed
next
  case (8 n env s listener rest)
  obtain r1 s1 tr1 where sub: "subscribe s listener = (r1, s1, tr1)"
    by (cases "subscribe s listener")
  show ?case
  proof (cases r1)
    case (Inl e)
    then show ?thesis using "8.prems" sub by auto
  next
    case (Inr h)
    from "8.prems" sub Inr obtain z where r2: "run n env s1 rest = Some z"
      by (auto split: option.splits)
    have "run (n + k) env s1 rest = Some z" using "8.IH" [OF sub [symmetric] Inr HOL.refl r2] .
    then show ?thesis using "8.prems" sub Inr r2 by auto
  qed
next
  case (9 n env s u rest)
  obtain r1 s1 tr1 where sub: "unsubscribe s u = (r1, s1, tr1)"
    by (cases "unsubscribe s u")
  show ?case
  proof (cases r1)
    case (Inl e)
    then show ?thesis using "9.prems" sub by auto
  next
    case (Inr h)
    from "9.prems" sub Inr obtain z where r2: "run n env s1 rest = Some z"
      by (auto split: option.splits)
    have "run (n + k) env s1 rest = Some z" using "9.IH" [OF sub [symmetric] Inr HOL.refl r2] .
    then show ?thesis using "9.prems" sub Inr r2 by auto
  qed
next
  case (10 n env s e rest)
  then show ?case by simp
qed

text \<open>Code that does not dispatch returns, and so does any code while the guard is set, where
  every \<open>dispatch\<close> throws.\<close>

lemma run_quiet_returns:
  "\<forall>c \<in> set cmds. \<not> dispatches c \<Longrightarrow> \<exists>x. run n env s cmds = Some x"
proof (induction cmds arbitrary: s)
  case Nil
  then show ?case by simp
next
  case (Cons c cmds)
  then have ih: "\<And>s. \<exists>x. run n env s cmds = Some x" by simp
  show ?case
  proof (cases c)
    case (Subscribe f)
    obtain r1 s1 tr1 where sub: "subscribe s f = (r1, s1, tr1)" by (cases "subscribe s f")
    from ih [of s1] obtain x where "run n env s1 cmds = Some x" ..
    then show ?thesis using sub Subscribe by (cases r1) (auto split: prod.splits)
  next
    case (Unsubscribe u)
    obtain r1 s1 tr1 where sub: "unsubscribe s u = (r1, s1, tr1)" by (cases "unsubscribe s u")
    from ih [of s1] obtain x where "run n env s1 cmds = Some x" ..
    then show ?thesis using sub Unsubscribe by (cases r1) (auto split: prod.splits)
  qed (use Cons.prems in auto)
qed

lemma run_guarded_total:
  "isDispatching s \<Longrightarrow> \<exists>x. run (Suc n) env s cmds = Some x"
proof (induction cmds arbitrary: s)
  case Nil
  then show ?case by simp
next
  case (Cons c cmds)
  show ?case
  proof (cases c)
    case (Dispatch a)
    then show ?thesis using Cons.prems by simp
  next
    case (ReplaceReducer f)
    then show ?thesis using Cons.prems
      by (cases f) (simp_all add: INIT_action_def own_prop_def ActionTypes_INIT_def)
  next
    case (Subscribe f)
    obtain r1 s1 tr1 where sub: "subscribe s f = (r1, s1, tr1)" by (cases "subscribe s f")
    have "isDispatching s1" using subscribe_fields [OF sub] Cons.prems by simp
    from Cons.IH [OF this] obtain x where "run (Suc n) env s1 cmds = Some x" ..
    then show ?thesis using sub Subscribe by (cases r1) (auto split: prod.splits)
  next
    case (Unsubscribe u)
    obtain r1 s1 tr1 where sub: "unsubscribe s u = (r1, s1, tr1)" by (cases "unsubscribe s u")
    have "isDispatching s1" using unsubscribe_fields [OF sub] Cons.prems by simp
    from Cons.IH [OF this] obtain x where "run (Suc n) env s1 cmds = Some x" ..
    then show ?thesis using sub Unsubscribe by (cases r1) (auto split: prod.splits)
  next
    case (Throw e)
    then show ?thesis by simp
  qed
qed

text \<open>When no listener dispatches, every \<open>dispatch\<close> returns: there is an amount of fuel
  from which on it gives one and the same result.\<close>

lemma notify_returns:
  assumes quiet: "\<forall>l v. \<forall>c \<in> set (listener_of env l v). \<not> dispatches c"
  shows "settled A s \<Longrightarrow> length (array_at s A) - i \<le> n \<Longrightarrow> \<exists>x. notify n env s A i = Some x"
proof (induction n arbitrary: s i)
  case 0
  then show ?case by simp
next
  case (Suc n)
  show ?case
  proof (cases "i < length (array_at s A)")
    case False
    then show ?thesis by simp
  next
    case True
    let ?l = "array_at s A ! i"
    have "\<forall>c \<in> set (listener_of env ?l (getState s)). \<not> dispatches c" using quiet by blast
    from run_quiet_returns [OF this, of n env s] obtain r1 s1 tr1 where
      r1: "run n env s (listener_of env ?l (getState s)) = Some (r1, s1, tr1)"
      by (metis prod_cases3)
    show ?thesis
    proof (cases r1)
      case (Inl e)
      then show ?thesis using True r1 by (simp add: Let_def)
    next
      case (Inr u)
      have s1: "settled A s1" and a1: "array_at s1 A = array_at s A"
        using settled_kept(3) [OF r1] Suc.prems(1) by auto
      have "length (array_at s1 A) - (i + 1) \<le> n" using Suc.prems(2) a1 by simp
      from Suc.IH [OF s1 this] obtain x where "notify n env s1 A (i + 1) = Some x" ..
      then show ?thesis using True r1 Inr by (cases x) (simp add: Let_def)
    qed
  qed
qed

lemma dispatch_returns:
  assumes wf: "nextListeners s < length (arrays s)"
    and quiet: "\<forall>l v. \<forall>c \<in> set (listener_of env l v). \<not> dispatches c"
  shows "\<exists>n x. \<forall>k. dispatch (n + k) env s a = Some x"
proof (cases "isPlainObject a \<and> get_type a \<noteq> JUndefined \<and> \<not> isDispatching s")
  case False
  then have "\<exists>x. dispatch (Suc 0) env s a = Some x"
    by (cases "isPlainObject a"; cases "get_type a = JUndefined"; cases "isDispatching s") simp_all
  then obtain x where "dispatch (Suc 0) env s a = Some x" ..
  from fuel_mono(1) [OF this] show ?thesis by blast
next
  case True
  obtain body v where red: "reducer_of env (currentReducer s) (currentState s) a = (body, v)"
    by (cases "reducer_of env (currentReducer s) (currentState s) a")
  have "isDispatching (s\<lparr>isDispatching := True\<rparr>)" by simp
  from run_guarded_total [OF this, of 0 env body] obtain r1 s1 tr1 where
    r1: "run (Suc 0) env (s\<lparr>isDispatching := True\<rparr>) body = Some (r1, s1, tr1)"
    by (metis prod_cases3)
  let ?A = "nextListeners s1"
  let ?s3 = "s1\<lparr>currentState := v, isDispatching := False, currentListeners := nextListeners s1\<rparr>"
  define N where "N = Suc (length (array_at s1 ?A))"
  have r1': "run N env (s\<lparr>isDispatching := True\<rparr>) body = Some (r1, s1, tr1)"
    using fuel_mono(3) [OF r1, of "length (array_at s1 ?A)"] by (simp add: N_def)
  have wf1: "?A < length (arrays s1)" using address_kept(3) [OF r1] wf by simp
  have st: "settled ?A ?s3" using wf1 by (simp add: settled_def)
  have "length (array_at ?s3 ?A) - 0 \<le> N" by (simp add: N_def)
  from notify_returns [OF quiet st this] obtain r2 s2 tr2 where
    n2: "notify N env ?s3 ?A 0 = Some (r2, s2, tr2)"
    by (metis prod_cases3)
  have "\<exists>x. dispatch (Suc N) env s a = Some x"
    using True red r1' n2 by (cases r1; cases r2) (simp_all add: Let_def)
  then obtain x where "dispatch (Suc N) env s a = Some x" ..
  from fuel_mono(1) [OF this] show ?thesis by blast
qed

subsection \<open>The properties on the example stores\<close>

lemmas store_ex = example_env_def reentrant_env_def example_store_def throwing_store_def
  pure_reducer_def counter_def INC_def
  own_prop_def Let_def array_at_def subscribe_def unsubscribe_def getState_def
  ensureCanMutateNextListeners_def remove_listener_def splice1_def INIT_action_def
  ActionTypes_INIT_def



theorem dispatch_guard_scope_witness:
  "dispatch 2 reentrant_env example_store INC =
     Some (Inl (Error ''Reducers may not dispatch actions.''),
           \<lparr>currentReducer = 0, currentState = JNum 0, currentListeners = 0, nextListeners = 1,
            isDispatching = False, arrays = [[], [0, 1, 2]],
            subscriptions = [(0, True), (1, True), (2, True)]\<rparr>,
           [Subscribed 2, Rejected INC]) \<and>
   dispatch 4 example_env throwing_store (PlainObject [(''type'', JStr ''other'')]) =
     Some (Inl (Error ''boom''), throwing_store,
           [Transition (JNum 0), Invoke 2 (JNum 0) [] None,
            Invoke 3 (JNum 0) [] (Some (Error ''boom''))])"
proof -
  let ?s1 = "\<lparr>currentReducer = 0, currentState = JNum 0, currentListeners = 0, nextListeners = 1,
            isDispatching = True, arrays = [[], [0, 1, 2]],
            subscriptions = [(0, True), (1, True), (2, True)]\<rparr>"
  let ?other = "PlainObject [(''type'', JStr ''other'')]"
  have a1: "\<not> isDispatching example_store" by (simp add: example_store_def)
  have a2: "isPlainObject INC" "get_type INC \<noteq> JUndefined" by (simp_all add: INC_def own_prop_def)
  have a3: "reducer_of reentrant_env (currentReducer example_store) (currentState example_store) INC =
      ([Subscribe (Fn 2), Dispatch INC], JNum 0)"
    by (simp add: store_ex)
  have a4: "run 1 reentrant_env (example_store\<lparr>isDispatching := True\<rparr>) [Subscribe (Fn 2), Dispatch INC] =
      Some (Inl (Error ''Reducers may not dispatch actions.''), ?s1, [Subscribed 2, Rejected INC])"
    by (simp add: store_ex)
  have b1: "\<not> isDispatching throwing_store" by (simp add: throwing_store_def)
  have b2: "isPlainObject ?other" "get_type ?other \<noteq> JUndefined" by (simp_all add: own_prop_def)
  have b3: "reducer_of example_env (currentReducer throwing_store) (currentState throwing_store) ?other =
      ([], JNum 0)"
    by (simp add: store_ex)
  have b4: "run 3 example_env (throwing_store\<lparr>isDispatching := True\<rparr>) [] =
      Some (Inr (), throwing_store\<lparr>isDispatching := True\<rparr>, [])"
    by simp
  from dispatch_guard_scope [OF a1 a2 a3 a4] dispatch_guard_scope [OF b1 b2 b3 b4]
  show ?thesis
    by (simp add: store_ex eval_nat_numeral)
qed

theorem reentrant_dispatch_rejected_witness:
  "dispatch 1 example_env (example_store\<lparr>isDispatching := True\<rparr>) INC =
     Some (Inl (Error ''Reducers may not dispatch actions.''),
           example_store\<lparr>isDispatching := True\<rparr>, [Rejected INC]) \<and>
   dispatch 2 reentrant_env example_store INC =
     Some (Inl (Error ''Reducers may not dispatch actions.''),
           \<lparr>currentReducer = 0, currentState = JNum 0, currentListeners = 0, nextListeners = 1,
            isDispatching = False, arrays = [[], [0, 1, 2]],
            subscriptions = [(0, True), (1, True), (2, True)]\<rparr>,
           [Subscribed 2, Rejected INC]) \<and>
   (\<exists>s' pass. dispatch 5 example_env example_store INC =
       Some (Inr INC, s', Transition (JNum 1) # Invoke 0 (JNum 1) (Transition (JNum 2) # pass) None #
                          [Invoke 1 (JNum 2) [Subscribed 2] None]) \<and>
       no_rejected pass \<and> \<not> isDispatching s')"
proof -
  let ?g = "example_store\<lparr>isDispatching := True\<rparr>"
  let ?s1 = "\<lparr>currentReducer = 0, currentState = JNum 0, currentListeners = 0, nextListeners = 1,
            isDispatching = True, arrays = [[], [0, 1, 2]],
            subscriptions = [(0, True), (1, True), (2, True)]\<rparr>"
  let ?s' = "\<lparr>currentReducer = 0, currentState = JNum 2, currentListeners = 1,
      nextListeners = 2, isDispatching = False, arrays = [[], [0, 1], [0, 2, 2]],
      subscriptions = [(0, True), (1, False), (2, True), (2, True)]\<rparr>"
  let ?pass = "[Invoke 0 (JNum 2) [] None, Invoke 1 (JNum 2) [Subscribed 2, Unsubscribed 1] None]"
  let ?tr = "Transition (JNum 1) # Invoke 0 (JNum 1) (Transition (JNum 2) # ?pass) None #
                          [Invoke 1 (JNum 2) [Subscribed 2] None]"
  have valid: "isPlainObject INC" "get_type INC \<noteq> JUndefined"
    by (simp_all add: INC_def own_prop_def)
  have a: "dispatch (Suc 0) example_env ?g INC =
      Some (Inl (Error ''Reducers may not dispatch actions.''), ?g, [Rejected INC])"
    using reentrant_dispatch_rejected [where s = ?g and a = INC and n = 0 and env = example_env,
        THEN conjunct1] valid
    by (simp add: example_store_def)
  have b3: "reducer_of reentrant_env (currentReducer example_store) (currentState example_store) INC =
      ([Subscribe (Fn 2)] @ Dispatch INC # [], JNum 0)"
    by (simp add: store_ex)
  have b4: "run (Suc 0) reentrant_env (example_store\<lparr>isDispatching := True\<rparr>) [Subscribe (Fn 2)] =
      Some (Inr (), ?s1, [Subscribed 2])"
    by (simp add: store_ex)
  have b: "dispatch (Suc (Suc 0)) reentrant_env example_store INC =
      Some (Inl (Error ''Reducers may not dispatch actions.''), ?s1\<lparr>isDispatching := False\<rparr>,
            [Subscribed 2] @ [Rejected INC])"
    using reentrant_dispatch_rejected [where s = example_store and a = INC and n = 0
        and env = reentrant_env and action = INC and before = "[Subscribe (Fn 2)]" and after = "[]"
        and v = "JNum 0" and u = "()" and ?s1.0 = ?s1 and ?tr1.0 = "[Subscribed 2]",
        THEN conjunct2, THEN conjunct1] valid b3 b4
    by (simp add: example_store_def)
  have c1: "\<forall>rd st b. \<forall>c \<in> set (fst (reducer_of example_env rd st b)). \<not> dispatches c"
    by (auto simp: example_env_def pure_reducer_def split: sum.splits)
  have c3: "dispatch 5 example_env example_store INC = Some (Inr INC, ?s', ?tr)"
    by (simp add: store_ex eval_nat_numeral)
  have c: "no_rejected ?tr \<and> \<not> isDispatching ?s'"
    using reentrant_dispatch_rejected [where s = example_store and env = example_env
        and action = INC and m = 5 and r = "Inr INC" and s' = ?s' and tr = ?tr,
        THEN conjunct2, THEN conjunct2] c1 c3
    by (simp add: example_store_def)
  from a b c c3 show ?thesis
    by (intro conjI exI [of _ ?s'] exI [of _ ?pass]) (simp_all add: eval_nat_numeral)
qed

section \<open>Properties of applyMiddleware\<close>

lemma store_dispatch_rebound:
  "store_dispatch n env a w = Some (r, w') \<Longrightarrow> rebound w' = rebound w"
  by (auto simp: store_dispatch_def split: option.splits)

lemma run_middleware_construction:
  "\<not> rebound w \<Longrightarrow>
   run_middleware (middlewareAPI_dispatch k ms (store_dispatch n env)) not_a_function cmds w =
     run_middleware (store_dispatch n env) not_a_function cmds w \<and>
   (\<forall>r w'. run_middleware (store_dispatch n env) not_a_function cmds w = Some (r, w') \<longrightarrow>
      \<not> rebound w')"
proof (induction cmds arbitrary: w)
  case Nil
  then show ?case by simp
next
  case (Cons c cmds)
  show ?case
  proof (cases c)
    case (CallApi a)
    have api: "middlewareAPI_dispatch k ms (store_dispatch n env) a w = store_dispatch n env a w"
      using Cons.prems by (simp add: middlewareAPI_dispatch_def)
    show ?thesis
    proof (cases "store_dispatch n env a w")
      case None
      then show ?thesis by (simp add: CallApi api)
    next
      case (Some res)
      obtain r1 w1 where res: "res = (r1, w1)" by (cases res)
      have w1: "\<not> rebound w1" using store_dispatch_rebound [OF Some [unfolded res]] Cons.prems by simp
      show ?thesis
      proof (cases r1)
        case (Inl e)
        then show ?thesis using w1 by (simp add: CallApi api Some res)
      next
        case (Inr u)
        then show ?thesis using Cons.IH [OF w1] by (simp add: CallApi api Some res)
      qed
    qed
  next
    case (CallNext a)
    then show ?thesis using Cons.prems by (simp add: not_a_function_def)
  next
    case (Log m)
    have "\<not> rebound (w\<lparr>log := log w @ [m]\<rparr>)" using Cons.prems by simp
    from Cons.IH [OF this] show ?thesis by (simp add: Log)
  next
    case (Raise e)
    then show ?thesis using Cons.prems by simp
  qed
qed

lemma create_chain_construction:
  "\<not> rebound w \<Longrightarrow>
   create_chain (middlewareAPI_dispatch k ms (store_dispatch n env)) ms' w =
     create_chain (store_dispatch n env) ms' w"
proof (induction ms' arbitrary: w)
  case Nil
  then show ?case by simp
next
  case (Cons m ms')
  note rc = run_middleware_construction [OF Cons.prems, of k ms n env "on_create m"]
  show ?case
  proof (cases "run_middleware (store_dispatch n env) not_a_function (on_create m) w")
    case None
    then show ?thesis using rc by simp
  next
    case (Some res)
    obtain r1 w1 where res: "res = (r1, w1)" by (cases res)
    have w1: "\<not> rebound w1" using rc Some res by simp
    show ?thesis
    proof (cases r1)
      case (Inl e)
      then show ?thesis using rc Some res by simp
    next
      case (Inr u)
      then show ?thesis using rc Some res Cons.IH [OF w1] by simp
    qed
  qed
qed

lemma right_to_left_wrap:
  "ms \<noteq> [] \<Longrightarrow> \<exists>d. right_to_left (map (\<lambda>m. wrap m api) ms) args = Inr d"
proof (induction ms)
  case Nil
  then show ?case by simp
next
  case (Cons m ms)
  show ?case
  proof (cases ms)
    case Nil
    then show ?thesis by (simp add: wrap_def)
  next
    case (Cons m' ms'')
    then have "ms \<noteq> []" by simp
    from Cons.IH [OF this] obtain d where "right_to_left (map (\<lambda>m. wrap m api) ms) args = Inr d" ..
    then show ?thesis using Cons by (simp add: wrap_def)
  qed
qed

lemma compose_chain_returns:
  "\<exists>d. compose undef (map (\<lambda>m. wrap m api) ms) [base] = Inr d"
proof (cases ms)
  case Nil
  then show ?thesis by (simp add: compose_def)
next
  case (Cons m rest)
  show ?thesis
  proof (cases rest)
    case Nil
    then show ?thesis using Cons by (simp add: compose_def wrap_def)
  next
    case (Cons m' rest')
    have "rest \<noteq> []" using Cons by simp
    from right_to_left_wrap [OF this, of api "[base]"] obtain d where
      d: "right_to_left (map (\<lambda>m. wrap m api) rest) [base] = Inr d" ..
    have "map (\<lambda>m. wrap m api) rest \<noteq> []" using Cons by simp
    note foldl_compose_step [OF this, of "wrap m api"]
    then show ?thesis using \<open>ms = m # rest\<close> Cons d
      by (simp add: compose_def wrap_def del: foldl_Cons)
  qed
qed

text \<open>
  Claim C4, as amended. \<open>applyMiddleware\<close> gives each middleware an API whose \<open>dispatch\<close>
  forwards to a variable that holds the store's own \<open>dispatch\<close> while the chain is built and
  the composed function afterwards. So a middleware that dispatches during its construction
  dispatches straight to the store: building the chain through the API is the same as
  building it with \<open>store.dispatch\<close> in place of \<open>api.dispatch\<close>, and no error is raised on
  that account. Once the variable is assigned, \<open>api.dispatch\<close> is the composed function, which
  is the chain of the middlewares around \<open>store.dispatch\<close>.
\<close>

theorem applyMiddleware_construction:
  "applyMiddleware k n env ms reducer preloadedState =
     (case createStore n env reducer preloadedState of
        None \<Rightarrow> None
      | Some (Inl e, tr) \<Rightarrow> Some (Inl e)
      | Some (Inr s, tr) \<Rightarrow>
          (case create_chain (store_dispatch n env) ms
                  \<lparr>store = s, rebound = False, log = [], seen = tr\<rparr> of
             None \<Rightarrow> None
           | Some (Inl e, w1) \<Rightarrow> Some (Inl e)
           | Some (Inr u, w1) \<Rightarrow> Some (Inr (w1\<lparr>rebound := True\<rparr>)))) \<and>
   middlewareAPI_dispatch k ms base a (w\<lparr>rebound := False\<rparr>) = base a (w\<lparr>rebound := False\<rparr>) \<and>
   middlewareAPI_dispatch k ms base a (w\<lparr>rebound := True\<rparr>) =
     composed_dispatch k ms base a (w\<lparr>rebound := True\<rparr>) \<and>
   composed_dispatch (Suc k) ms base = chain_dispatch (middlewareAPI_dispatch k ms base) ms base"
proof -
  let ?api = "middlewareAPI_dispatch k ms (store_dispatch n env)"
  have chain: "\<And>s tr. create_chain ?api ms \<lparr>store = s, rebound = False, log = [], seen = tr\<rparr> =
      create_chain (store_dispatch n env) ms \<lparr>store = s, rebound = False, log = [], seen = tr\<rparr>"
    by (rule create_chain_construction) simp
  obtain d where d: "compose not_a_function (map (\<lambda>m. wrap m ?api) ms) [store_dispatch n env] = Inr d"
    using compose_chain_returns by blast
  have 1: "applyMiddleware k n env ms reducer preloadedState =
     (case createStore n env reducer preloadedState of
        None \<Rightarrow> None
      | Some (Inl e, tr) \<Rightarrow> Some (Inl e)
      | Some (Inr s, tr) \<Rightarrow>
          (case create_chain (store_dispatch n env) ms
                  \<lparr>store = s, rebound = False, log = [], seen = tr\<rparr> of
             None \<Rightarrow> None
           | Some (Inl e, w1) \<Rightarrow> Some (Inl e)
           | Some (Inr u, w1) \<Rightarrow> Some (Inr (w1\<lparr>rebound := True\<rparr>))))"
    by (simp add: applyMiddleware_def Let_def chain d
        split: option.splits prod.splits sum.splits)
  have 2: "middlewareAPI_dispatch k ms base a (w\<lparr>rebound := False\<rparr>) = base a (w\<lparr>rebound := False\<rparr>)"
    by (simp add: middlewareAPI_dispatch_def)
  have 3: "middlewareAPI_dispatch k ms base a (w\<lparr>rebound := True\<rparr>) =
     composed_dispatch k ms base a (w\<lparr>rebound := True\<rparr>)"
    by (simp add: middlewareAPI_dispatch_def)
  have 4: "composed_dispatch (Suc k) ms base = chain_dispatch (middlewareAPI_dispatch k ms base) ms base"
    by (simp add: middlewareAPI_dispatch_def [abs_def])
  from 1 2 3 4 show ?thesis by blast
qed

lemmas mw_ex = applyMiddleware_def createStore_def middlewareAPI_dispatch_def store_dispatch_def
  chain_dispatch_def compose_def compose_step_def wrap_def logger_def early_def not_a_function_def

text \<open>
  Claim C4 as stated has a dispatch during construction fail. With the middlewares
  \<open>logger\<close> and \<open>early\<close>, \<open>applyMiddleware\<close> returns the enhanced store: the action of
  \<open>early\<close> has reached the reducer, the state is 1, and \<open>logger\<close> has not seen it.
\<close>

theorem early_dispatch_reaches_store:
  "applyMiddleware 3 5 example_env [logger ''a'', early] (Fn 0) JUndefined =
     Some (Inr \<lparr>store = \<lparr>currentReducer = 0, currentState = JNum 1, currentListeners = 0,
                         nextListeners = 0, isDispatching = False, arrays = [[]],
                         subscriptions = []\<rparr>,
                rebound = True, log = [], seen = [Transition (JNum 0), Transition (JNum 1)]\<rparr>)"
  by (simp add: mw_ex store_ex eval_nat_numeral)

theorem applyMiddleware_construction_witness:
  "create_chain (store_dispatch 5 example_env) [early, logger ''b'']
     \<lparr>store = \<lparr>currentReducer = 0, currentState = JNum 0, currentListeners = 0,
               nextListeners = 0, isDispatching = False, arrays = [[]], subscriptions = []\<rparr>,
      rebound = False, log = [], seen = [Transition (JNum 0)]\<rparr> =
     Some (Inr (),
       \<lparr>store = \<lparr>currentReducer = 0, currentState = JNum 1, currentListeners = 0,
               nextListeners = 0, isDispatching = False, arrays = [[]], subscriptions = []\<rparr>,
        rebound = False, log = [], seen = [Transition (JNum 0), Transition (JNum 1)]\<rparr>) \<and>
   applyMiddleware 2 5 example_env [early, logger ''b''] (Fn 0) JUndefined =
     Some (Inr \<lparr>store = \<lparr>currentReducer = 0, currentState = JNum 1, currentListeners = 0,
                         nextListeners = 0, isDispatching = False, arrays = [[]],
                         subscriptions = []\<rparr>,
                rebound = True, log = [], seen = [Transition (JNum 0), Transition (JNum 1)]\<rparr>)"
proof -
  have c: "createStore 5 example_env (Fn 0) JUndefined =
      Some (Inr \<lparr>currentReducer = 0, currentState = JNum 0, currentListeners = 0,
               nextListeners = 0, isDispatching = False, arrays = [[]], subscriptions = []\<rparr>,
            [Transition (JNum 0)])"
    by (simp add: createStore_def store_ex eval_nat_numeral)
  have ch: "create_chain (store_dispatch 5 example_env) [early, logger ''b'']
     \<lparr>store = \<lparr>currentReducer = 0, currentState = JNum 0, currentListeners = 0,
               nextListeners = 0, isDispatching = False, arrays = [[]], subscriptions = []\<rparr>,
      rebound = False, log = [], seen = [Transition (JNum 0)]\<rparr> =
     Some (Inr (),
       \<lparr>store = \<lparr>currentReducer = 0, currentState = JNum 1, currentListeners = 0,
               nextListeners = 0, isDispatching = False, arrays = [[]], subscriptions = []\<rparr>,
        rebound = False, log = [], seen = [Transition (JNum 0), Transition (JNum 1)]\<rparr>)"
    by (simp add: mw_ex store_ex eval_nat_numeral)
  from applyMiddleware_construction [of 2 5 example_env "[early, logger ''b'']" "Fn 0" JUndefined,
      THEN conjunct1]
  show ?thesis by (simp add: c ch del: create_chain.simps)
qed

text \<open>After construction an action goes through the middlewares from left to right and then
  to the store.\<close>

lemma composed_dispatch_example:
  "composed_dispatch 1 [logger ''a'', logger ''b''] (store_dispatch 5 example_env) INC
     \<lparr>store = example_store, rebound = True, log = [], seen = []\<rparr> =
   (case dispatch 5 example_env example_store INC of
      None \<Rightarrow> None
    | Some (r, s', tr) \<Rightarrow>
        Some (Inr (), \<lparr>store = s', rebound = True, log = [''a'', ''b''], seen = tr\<rparr>))"
  by (simp add: mw_ex store_ex eval_nat_numeral)

end
